theory Spec2Isabelle
  imports Complex_Main "HOL-Library.Product_Lexorder" "HOL-Library.Multiset"
begin

section \<open>The disjoint-set forest of \<^verbatim>\<open>union_find.py\<close>\<close>

text \<open>
  \<^verbatim>\<open>UnionFind.__init__\<close> builds \<^verbatim>\<open>parent = np.arange(size)\<close>,
  \<^verbatim>\<open>rank = np.zeros(size)\<close> and \<^verbatim>\<open>num_sets = size\<close>. Entries of
  \<^verbatim>\<open>parent\<close> are only ever overwritten with values read from \<^verbatim>\<open>parent\<close>, and
  entries of \<^verbatim>\<open>rank\<close> only count upwards from zero, so both arrays hold naturals.
  The indices a caller passes are Python integers and may be negative.
\<close>

datatype error = IndexError | RecursionError | ValueError | OverflowError

record union_find =
  parent :: "nat list"
  rank :: "nat list"
  num_sets :: int

definition uf_init :: "nat \<Rightarrow> union_find" where
  "uf_init n = \<lparr>parent = [0..<n], rank = replicate n 0, num_sets = int n\<rparr>"

text \<open>
  NumPy resolves an index \<open>i\<close> into an array of length \<open>n\<close>: \<open>0 \<le> i < n\<close> is the
  position itself, \<open>-n \<le> i < 0\<close> counts from the end, anything else raises IndexError.
\<close>

definition resolve :: "nat \<Rightarrow> int \<Rightarrow> nat option" where
  "resolve n i =
     (if 0 \<le> i \<and> i < int n then Some (nat i)
      else if i < 0 \<and> - int n \<le> i then Some (nat (i + int n))
      else None)"

text \<open>
  \<^verbatim>\<open>find\<close> is recursive: \<^verbatim>\<open>if self.parent[i] != i: self.parent[i] = self.find(self.parent[i])\<close>,
  then \<^verbatim>\<open>return self.parent[i]\<close>. The first argument bounds the depth of the recursion;
  running out of depth stands for the RecursionError that CPython raises when the chain
  of parents runs into a cycle. CPython's own limit (1000 frames by default) is not
  modelled.
\<close>

fun find_rec :: "nat \<Rightarrow> nat list \<Rightarrow> int \<Rightarrow> error + (nat list \<times> nat)" where
  "find_rec 0 p i = Inl RecursionError"
| "find_rec (Suc d) p i =
     (case resolve (length p) i of
        None \<Rightarrow> Inl IndexError
      | Some a \<Rightarrow>
          if int (p ! a) \<noteq> i then
            (case find_rec d p (int (p ! a)) of
               Inl e \<Rightarrow> Inl e
             | Inr (p', r) \<Rightarrow> Inr (p'[a := r], p'[a := r] ! a))
          else Inr (p, p ! a))"

text \<open>
  A chain of parents without a cycle visits each of the \<open>length p\<close> positions at most
  once, and a negative index costs one more call, so \<open>length p + 1\<close> frames reach the
  root of every forest.
\<close>

definition find :: "union_find \<Rightarrow> int \<Rightarrow> error + (union_find \<times> nat)" where
  "find u i =
     (case find_rec (Suc (length (parent u))) (parent u) i of
        Inl e \<Rightarrow> Inl e
      | Inr (p', r) \<Rightarrow> Inr (u\<lparr>parent := p'\<rparr>, r))"

text \<open>
  \<^verbatim>\<open>union\<close> has no \<^verbatim>\<open>return\<close> statement, so its value is Python's \<^verbatim>\<open>None\<close>
  whether or not it merged; the second component of the result is that value. A root
  that \<^verbatim>\<open>find\<close> returned is a position of \<^verbatim>\<open>parent\<close> (lemma \<open>find_rec_in_range\<close>),
  and \<^verbatim>\<open>rank\<close> has the length of \<^verbatim>\<open>parent\<close> in every object the constructor
  builds, so the reads and writes at \<open>root_i\<close> and \<open>root_j\<close> raise nothing.
\<close>

definition union :: "union_find \<Rightarrow> int \<Rightarrow> int \<Rightarrow> error + (union_find \<times> nat option)" where
  "union u i j =
     (case find u i of
        Inl e \<Rightarrow> Inl e
      | Inr (u1, root_i) \<Rightarrow>
         (case find u1 j of
            Inl e \<Rightarrow> Inl e
          | Inr (u2, root_j) \<Rightarrow>
              if root_i \<noteq> root_j then
                (let u3 =
                   (if rank u2 ! root_i < rank u2 ! root_j then
                      u2\<lparr>parent := (parent u2)[root_i := root_j]\<rparr>
                    else if rank u2 ! root_i > rank u2 ! root_j then
                      u2\<lparr>parent := (parent u2)[root_j := root_i]\<rparr>
                    else
                      u2\<lparr>parent := (parent u2)[root_j := root_i],
                         rank := (rank u2)[root_i := rank u2 ! root_i + 1]\<rparr>)
                 in Inr (u3\<lparr>num_sets := num_sets u3 - 1\<rparr>, None))
              else Inr (u2, None)))"


text \<open>
  \<^verbatim>\<open>get_component_sizes\<close> resolves every index in turn,
  \<^verbatim>\<open>[self.find(i) for i in range(len(self.parent))]\<close>, and hands the roots to
  \<^verbatim>\<open>np.unique(roots, return_counts=True)\<close>, which returns the distinct values in
  ascending order with the number of occurrences of each. The dictionary built from
  \<^verbatim>\<open>zip(unique_roots, counts)\<close> keeps that order; it is the association list here.
\<close>

fun find_all :: "union_find \<Rightarrow> nat list \<Rightarrow> error + (union_find \<times> nat list)" where
  "find_all u [] = Inr (u, [])"
| "find_all u (i # is) =
     (case find u (int i) of
        Inl e \<Rightarrow> Inl e
      | Inr (u1, r) \<Rightarrow>
         (case find_all u1 is of
            Inl e \<Rightarrow> Inl e
          | Inr (u2, rs) \<Rightarrow> Inr (u2, r # rs)))"

definition np_unique :: "nat list \<Rightarrow> nat list \<times> nat list" where
  "np_unique xs = (let us = remdups (sort xs) in (us, map (count_list xs) us))"

definition get_component_sizes :: "union_find \<Rightarrow> error + (union_find \<times> (nat \<times> nat) list)" where
  "get_component_sizes u =
     (case find_all u [0..<length (parent u)] of
        Inl e \<Rightarrow> Inl e
      | Inr (u', roots) \<Rightarrow>
          (let (unique_roots, counts) = np_unique roots
           in Inr (u', zip unique_roots counts)))"

text \<open>
  \<^verbatim>\<open>sorted(component_sizes.items(), key=lambda x: x[1], reverse=True)\<close> is a stable sort
  by descending size: items of equal size keep the order of the dictionary. A slice
  \<^verbatim>\<open>xs[:n]\<close> with negative \<open>n\<close> drops the last \<open>-n\<close> items. Unpacking
  \<^verbatim>\<open>roots, sizes = zip(*[])\<close> raises ValueError.
\<close>

definition slice_to :: "int \<Rightarrow> 'a list \<Rightarrow> 'a list" where
  "slice_to n xs = (if 0 \<le> n then take (nat n) xs else take (nat (int (length xs) + n)) xs)"

definition get_largest_components ::
  "union_find \<Rightarrow> int \<Rightarrow> error + (union_find \<times> nat list \<times> nat list)" where
  "get_largest_components u n =
     (case get_component_sizes u of
        Inl e \<Rightarrow> Inl e
      | Inr (u', component_sizes) \<Rightarrow>
          (let sorted_components = sort_key (\<lambda>x. - int (snd x)) component_sizes;
               chosen = (if int (length sorted_components) \<ge> n
                         then slice_to n sorted_components else sorted_components)
           in if chosen = [] then Inl ValueError
              else Inr (u', map fst chosen, map snd chosen)))"

text \<open>A sequence of \<^verbatim>\<open>union\<close> calls on one forest; the first exception ends it.\<close>

fun unions :: "union_find \<Rightarrow> (int \<times> int) list \<Rightarrow> error + union_find" where
  "unions u [] = Inr u"
| "unions u ((i, j) # ops) =
     (case union u i j of Inl e \<Rightarrow> Inl e | Inr (u', _) \<Rightarrow> unions u' ops)"


section \<open>Pixel buffers and the adjacency graph of \<^verbatim>\<open>fh_segmentation.py\<close>\<close>

text \<open>
  A pixel buffer is a NumPy array of shape \<open>(height, width)\<close> (\<open>channels = None\<close>,
  \<^verbatim>\<open>ndim == 2\<close>) or \<open>(height, width, c)\<close> (\<open>channels = Some c\<close>, \<^verbatim>\<open>ndim == 3\<close>),
  stored row-major. The buffers this repository hands to the engine are \<^verbatim>\<open>uint8\<close>
  (the scikit-image samples, \<^verbatim>\<open>create_test_image\<close>, and \<^verbatim>\<open>preprocess_image\<close> with
  its \<^verbatim>\<open>astype(np.uint8)\<close>); \<^verbatim>\<open>gaussian(..., preserve_range=True)\<close> returns
  \<^verbatim>\<open>float64\<close>. Arithmetic on \<^verbatim>\<open>uint8\<close> wraps modulo 256 and is written out.
  A finite \<^verbatim>\<open>float64\<close> value is the rational number it denotes; infinities and NaN
  are outside the model. Comparisons of such values are exact, arithmetic rounds (see
  \<open>fp\<close> below).
\<close>

datatype pixels = UInt8 "int list" | Float64 "rat list"

record ndarray =
  height :: nat
  width :: nat
  channels :: "nat option"
  pixels :: pixels

definition wf_ndarray :: "ndarray \<Rightarrow> bool" where
  "wf_ndarray a \<longleftrightarrow>
     (let n = height a * width a * (case channels a of None \<Rightarrow> 1 | Some c \<Rightarrow> c)
      in case pixels a of
           UInt8 xs \<Rightarrow> length xs = n \<and> list_all (\<lambda>v. 0 \<le> v \<and> v < 256) xs
         | Float64 xs \<Rightarrow> length xs = n)"

text \<open>
  What the engine takes from its libraries: \<open>nep50\<close> tells whether NumPy keeps the
  \<^verbatim>\<open>uint8\<close> type of a scalar raised to the Python integer 2 (NumPy 2) or widens it to
  \<^verbatim>\<open>int64\<close> (NumPy 1); \<open>gaussian\<close> is scikit-image's filter; \<open>randint k\<close> is the
  \<open>k\<close>-th number NumPy's global generator draws.
\<close>

record libs =
  nep50 :: bool
  gaussian :: "ndarray \<Rightarrow> rat \<Rightarrow> ndarray"
  randint :: "nat \<Rightarrow> nat"

text \<open>
  The \<^verbatim>\<open>float64\<close> arithmetic of the machine, each operation with its rounding:
  \<open>fadd x y\<close> is the sum NumPy returns for \<open>x + y\<close> (an integer operand is converted
  to \<^verbatim>\<open>float64\<close> first), \<open>fsub\<close> the difference, \<open>fsquare x\<close> is \<^verbatim>\<open>x**2\<close>,
  \<open>fsum\<close> is \<^verbatim>\<open>np.sum\<close> over a \<^verbatim>\<open>float64\<close> vector, and \<open>int_to_float\<close> is the
  nearest \<^verbatim>\<open>float64\<close> to an integer within range. They are parameters: nothing is
  assumed about how they round, and what is proved holds for every choice of them. A
  run of the program in which every \<^verbatim>\<open>float64\<close> value is finite is a run of the model
  under the operations of the machine; a run in which an operation overflows to an
  infinity is not covered.
\<close>

record fp =
  fadd :: "rat \<Rightarrow> rat \<Rightarrow> rat"
  fsub :: "rat \<Rightarrow> rat \<Rightarrow> rat"
  fsquare :: "rat \<Rightarrow> rat"
  fsum :: "rat list \<Rightarrow> rat"
  int_to_float :: "int \<Rightarrow> rat"

text \<open>
  The parameter \<^verbatim>\<open>k\<close> is a Python number: an \<^verbatim>\<open>int\<close> or a finite \<^verbatim>\<open>float\<close>.
  \<^verbatim>\<open>float(k)\<close> returns a float as it is and rounds an int to the nearest
  \<^verbatim>\<open>float64\<close> (ties to even); it raises OverflowError when the rounded value would
  lie beyond the largest \<^verbatim>\<open>float64\<close>, \<open>2\<^sup>1\<^sup>0\<^sup>2\<^sup>4 - 2\<^sup>9\<^sup>7\<^sup>1\<close>, that is when the magnitude
  of the int is at least \<open>2\<^sup>1\<^sup>0\<^sup>2\<^sup>4 - 2\<^sup>9\<^sup>7\<^sup>0\<close>.
\<close>

datatype pynum = PyInt int | PyFloat rat

definition py_float :: "fp \<Rightarrow> pynum \<Rightarrow> error + rat" where
  "py_float F k =
     (case k of
        PyFloat x \<Rightarrow> Inr x
      | PyInt i \<Rightarrow>
          if \<bar>i\<bar> \<ge> 2 ^ 1024 - 2 ^ 970 then Inl OverflowError
          else Inr (int_to_float F i))"

text \<open>
  The weight of the edge between the pixels at row-major positions \<open>p\<close> and \<open>q\<close>:
  \<^verbatim>\<open>(image[y, x] - image[y, x + 1])**2\<close> on scalars, \<^verbatim>\<open>np.sum((...)**2)\<close> on the
  channel vectors. On \<^verbatim>\<open>uint8\<close> vectors the difference and the square both wrap, and
  \<^verbatim>\<open>np.sum\<close> adds in a 64-bit accumulator. On \<^verbatim>\<open>float64\<close> every operation rounds.
\<close>

definition edge_weight :: "fp \<Rightarrow> bool \<Rightarrow> ndarray \<Rightarrow> nat \<Rightarrow> nat \<Rightarrow> rat" where
  "edge_weight F np2 img p q =
     (case pixels img of
        UInt8 xs \<Rightarrow>
          (case channels img of
             None \<Rightarrow>
               (let d = (xs ! p - xs ! q) mod 256
                in of_int (if np2 then (d * d) mod 256 else d * d))
           | Some c \<Rightarrow>
               of_int (sum_list (map (\<lambda>ch. (((xs ! (p * c + ch) - xs ! (q * c + ch)) mod 256)\<^sup>2) mod 256)
                                   [0..<c])))
      | Float64 xs \<Rightarrow>
          (case channels img of
             None \<Rightarrow> fsquare F (fsub F (xs ! p) (xs ! q))
           | Some c \<Rightarrow>
               fsum F (map (\<lambda>ch. fsquare F (fsub F (xs ! (p * c + ch)) (xs ! (q * c + ch))))
                           [0..<c])))"

type_synonym edge = "rat \<times> nat \<times> nat"

definition pixel_edges :: "fp \<Rightarrow> bool \<Rightarrow> ndarray \<Rightarrow> nat \<Rightarrow> nat \<Rightarrow> edge list" where
  "pixel_edges F np2 img y x =
     (let u = y * width img + x
      in (if x < width img - 1
          then [(edge_weight F np2 img u (y * width img + (x + 1)), u, y * width img + (x + 1))]
          else []) @
         (if y < height img - 1
          then [(edge_weight F np2 img u ((y + 1) * width img + x), u, (y + 1) * width img + x)]
          else []))"

definition create_graph :: "fp \<Rightarrow> bool \<Rightarrow> ndarray \<Rightarrow> edge list" where
  "create_graph F np2 img =
     sort (concat (map (\<lambda>y. concat (map (\<lambda>x. pixel_edges F np2 img y x) [0..<width img]))
                       [0..<height img]))"

section \<open>The segmentation engine\<close>

text \<open>
  Pass 1, the body of \<^verbatim>\<open>for weight, u, v in edges\<close>. The state is the forest and the
  \<^verbatim>\<open>threshold\<close> array, \<^verbatim>\<open>np.full(num_pixels, float(k), dtype=float)\<close>, which has
  one entry for every position of \<^verbatim>\<open>parent\<close>. \<open>kf\<close> is the value of
  \<^verbatim>\<open>float(k)\<close>. The new threshold \<^verbatim>\<open>weight + float(k)\<close> is a \<^verbatim>\<open>float64\<close> sum and
  rounds. The comparison \<^verbatim>\<open>weight <= MInt\<close> is exact: an integer weight is below
  \<open>2\<^sup>5\<^sup>3\<close> (it is at most 65025, or 255 times the channel count) and converts to
  \<^verbatim>\<open>float64\<close> without rounding.
\<close>

definition pass1_step ::
  "fp \<Rightarrow> rat \<Rightarrow> union_find \<times> rat list \<Rightarrow> edge \<Rightarrow> error + (union_find \<times> rat list)" where
  "pass1_step F kf s e =
     (case s of (uf, threshold) \<Rightarrow> case e of (weight, u, v) \<Rightarrow>
        (case find uf (int u) of
           Inl x \<Rightarrow> Inl x
         | Inr (uf1, root_u) \<Rightarrow>
            (case find uf1 (int v) of
               Inl x \<Rightarrow> Inl x
             | Inr (uf2, root_v) \<Rightarrow>
                 if root_u \<noteq> root_v then
                   (let MInt = min (threshold ! root_u) (threshold ! root_v)
                    in if weight \<le> MInt then
                         (case union uf2 (int root_u) (int root_v) of
                            Inl x \<Rightarrow> Inl x
                          | Inr (uf3, _) \<Rightarrow>
                             (case find uf3 (int root_u) of
                                Inl x \<Rightarrow> Inl x
                              | Inr (uf4, new_root) \<Rightarrow>
                                  Inr (uf4, threshold[new_root := fadd F weight kf])))
                       else Inr (uf2, threshold))
                 else Inr (uf2, threshold))))"

fun pass1 ::
  "fp \<Rightarrow> rat \<Rightarrow> union_find \<times> rat list \<Rightarrow> edge list \<Rightarrow> error + (union_find \<times> rat list)" where
  "pass1 F kf s [] = Inr s"
| "pass1 F kf s (e # es) =
     (case pass1_step F kf s e of Inl x \<Rightarrow> Inl x | Inr s' \<Rightarrow> pass1 F kf s' es)"

text \<open>
  Pass 2, the body of the second loop. \<^verbatim>\<open>np.sum(uf.parent == root_u)\<close> counts the
  entries of the parent array that are equal to \<open>root_u\<close>.
\<close>

definition pass2_step :: "int \<Rightarrow> union_find \<Rightarrow> edge \<Rightarrow> error + union_find" where
  "pass2_step min_size uf e =
     (case e of (weight, u, v) \<Rightarrow>
        (case find uf (int u) of
           Inl x \<Rightarrow> Inl x
         | Inr (uf1, root_u) \<Rightarrow>
            (case find uf1 (int v) of
               Inl x \<Rightarrow> Inl x
             | Inr (uf2, root_v) \<Rightarrow>
                 if root_u \<noteq> root_v then
                   (let size_u = count_list (parent uf2) root_u;
                        size_v = count_list (parent uf2) root_v
                    in if int size_u < min_size \<or> int size_v < min_size then
                         (case union uf2 (int root_u) (int root_v) of
                            Inl x \<Rightarrow> Inl x
                          | Inr (uf3, _) \<Rightarrow> Inr uf3)
                       else Inr uf2)
                 else Inr uf2)))"

fun pass2 :: "int \<Rightarrow> union_find \<Rightarrow> edge list \<Rightarrow> error + union_find" where
  "pass2 min_size uf [] = Inr uf"
| "pass2 min_size uf (e # es) =
     (case pass2_step min_size uf e of Inl x \<Rightarrow> Inl x | Inr uf' \<Rightarrow> pass2 min_size uf' es)"

text \<open>
  The two passes over the edges of the smoothed buffer, from
  \<^verbatim>\<open>edges = create_graph(smoothed_image)\<close> to the end of the cleanup loop.
  \<^verbatim>\<open>float(k)\<close> is first evaluated for \<^verbatim>\<open>np.full(num_pixels, float(k), dtype=float)\<close>,
  after the graph and the forest have been built.
\<close>

definition merge_passes ::
  "fp \<Rightarrow> bool \<Rightarrow> ndarray \<Rightarrow> nat \<Rightarrow> pynum \<Rightarrow> int \<Rightarrow> error + union_find" where
  "merge_passes F np2 smoothed_image num_pixels k min_size =
     (let edges = create_graph F np2 smoothed_image;
          uf = uf_init num_pixels
      in case py_float F k of
           Inl x \<Rightarrow> Inl x
         | Inr kf \<Rightarrow>
             (let threshold = replicate num_pixels kf
              in case pass1 F kf (uf, threshold) edges of
                   Inl x \<Rightarrow> Inl x
                 | Inr (uf1, threshold1) \<Rightarrow>
                     if min_size > 0 then pass2 min_size uf1 edges else Inr uf1))"


text \<open>
  Arrays live in a store: an address is a position in the list of allocated arrays, and
  an allocation (\<^verbatim>\<open>image.copy()\<close>, the result of \<^verbatim>\<open>gaussian\<close>,
  \<^verbatim>\<open>np.zeros_like(image)\<close>) appends a new array. The caller's buffer is an address
  of the store the call starts in.
\<close>

type_synonym heap = "ndarray list"

definition alloc :: "heap \<Rightarrow> ndarray \<Rightarrow> heap \<times> nat" where
  "alloc h a = (h @ [a], length h)"

definition zeros_like :: "ndarray \<Rightarrow> ndarray" where
  "zeros_like a =
     a\<lparr>pixels := (case pixels a of
                     UInt8 xs \<Rightarrow> UInt8 (replicate (length xs) 0)
                   | Float64 xs \<Rightarrow> Float64 (replicate (length xs) 0))\<rparr>"

text \<open>
  A colour is the scalar \<^verbatim>\<open>np.random.randint(0, 255)\<close> or the array
  \<^verbatim>\<open>np.random.randint(0, 255, 3)\<close>. The assignment
  \<^verbatim>\<open>segmented_image[y, x] = component_colors[root]\<close> broadcasts the colour into the
  pixel; an array of three values fits a pixel of \<open>c\<close> channels only when \<open>c = 3\<close>,
  and NumPy raises ValueError otherwise.
\<close>

datatype color = Scalar nat | Triple "nat list"

definition set_elem :: "pixels \<Rightarrow> nat \<Rightarrow> nat \<Rightarrow> pixels" where
  "set_elem px i v =
     (case px of
        UInt8 xs \<Rightarrow> UInt8 (xs[i := int v])
      | Float64 xs \<Rightarrow> Float64 (xs[i := of_nat v]))"

definition store_pixel :: "ndarray \<Rightarrow> nat \<Rightarrow> nat \<Rightarrow> color \<Rightarrow> error + ndarray" where
  "store_pixel a y x col =
     (let p = y * width a + x
      in case channels a of
           None \<Rightarrow>
             (case col of
                Scalar v \<Rightarrow> Inr (a\<lparr>pixels := set_elem (pixels a) p v\<rparr>)
              | Triple vs \<Rightarrow> Inl ValueError)
         | Some c \<Rightarrow>
             (case col of
                Scalar v \<Rightarrow>
                  Inr (a\<lparr>pixels := fold (\<lambda>ch px. set_elem px (p * c + ch) v) [0..<c] (pixels a)\<rparr>)
              | Triple vs \<Rightarrow>
                  if length vs = c then
                    Inr (a\<lparr>pixels :=
                            fold (\<lambda>ch px. set_elem px (p * c + ch) (vs ! ch)) [0..<c] (pixels a)\<rparr>)
                  else Inl ValueError))"

text \<open>
  The body of the colouring loop. The state is the forest, the dictionary
  \<^verbatim>\<open>component_colors\<close>, the number of values drawn from the generator so far, and
  the store; \<open>seg\<close> is the address of \<^verbatim>\<open>segmented_image\<close>.
\<close>

type_synonym paint_state = "union_find \<times> (nat \<rightharpoonup> color) \<times> nat \<times> heap"

definition paint_step ::
  "libs \<Rightarrow> bool \<Rightarrow> nat \<Rightarrow> nat \<Rightarrow> paint_state \<Rightarrow> nat \<times> nat \<Rightarrow> error + paint_state" where
  "paint_step L is_color w seg s yx =
     (case s of (uf, component_colors, drawn, h) \<Rightarrow> case yx of (y, x) \<Rightarrow>
        (case find uf (int (y * w + x)) of
           Inl e \<Rightarrow> Inl e
         | Inr (uf1, rt) \<Rightarrow>
            (let (col, component_colors1, drawn1) =
               (case component_colors rt of
                  Some c \<Rightarrow> (c, component_colors, drawn)
                | None \<Rightarrow>
                    if is_color then
                      (let c = Triple (map (\<lambda>i. randint L (drawn + i) mod 255) [0..<3])
                       in (c, component_colors(rt \<mapsto> c), drawn + 3))
                    else
                      (let c = Scalar (randint L drawn mod 255)
                       in (c, component_colors(rt \<mapsto> c), drawn + 1)))
             in case store_pixel (h ! seg) y x col of
                  Inl e \<Rightarrow> Inl e
                | Inr a \<Rightarrow> Inr (uf1, component_colors1, drawn1, h[seg := a]))))"

fun paint ::
  "libs \<Rightarrow> bool \<Rightarrow> nat \<Rightarrow> nat \<Rightarrow> paint_state \<Rightarrow> (nat \<times> nat) list \<Rightarrow> error + paint_state" where
  "paint L is_color w seg s [] = Inr s"
| "paint L is_color w seg s (yx # rest) =
     (case paint_step L is_color w seg s yx of
        Inl e \<Rightarrow> Inl e
      | Inr s' \<Rightarrow> paint L is_color w seg s' rest)"

definition raster :: "nat \<Rightarrow> nat \<Rightarrow> (nat \<times> nat) list" where
  "raster h w = concat (map (\<lambda>y. map (\<lambda>x. (y, x)) [0..<w]) [0..<h])"

text \<open>
  The entry point. \<open>image_addr\<close> is the address of the caller's buffer in the store
  \<open>h\<close>; the result is the new store, the address of \<^verbatim>\<open>segmented_image\<close>,
  \<^verbatim>\<open>uf.num_sets\<close> and the forest.
\<close>

definition felzenszwalb_huttenlocher ::
  "fp \<Rightarrow> libs \<Rightarrow> heap \<Rightarrow> nat \<Rightarrow> pynum \<Rightarrow> int \<Rightarrow> rat \<Rightarrow>
     error + (heap \<times> nat \<times> int \<times> union_find)" where
  "felzenszwalb_huttenlocher F L h image_addr k min_size sigma =
     (let img = h ! image_addr;
          num_pixels = height img * width img;
          is_color = (channels img \<noteq> None);
          (h1, smoothed_image) =
            (if sigma > 0 then alloc h (gaussian L img sigma) else alloc h img)
      in case merge_passes F (nep50 L) (h1 ! smoothed_image) num_pixels k min_size of
           Inl e \<Rightarrow> Inl e
         | Inr uf \<Rightarrow>
             (let (h2, segmented_image) = alloc h1 (zeros_like img)
              in case paint L is_color (width img) segmented_image (uf, Map.empty, 0, h2)
                        (raster (height img) (width img)) of
                   Inl e \<Rightarrow> Inl e
                 | Inr (uf', component_colors, drawn, h3) \<Rightarrow>
                     Inr (h3, segmented_image, num_sets uf', uf')))"

section \<open>Concrete inputs\<close>

text \<open>
  Libraries with the identity for \<^verbatim>\<open>gaussian\<close> (it is not called when
  \<open>sigma = 0\<close>) and a given sequence of random draws, and small buffers: a 1x2 and a
  1x4 and 1x8 \<^verbatim>\<open>uint8\<close> row, the 1x4 row as \<^verbatim>\<open>float64\<close>, a buffer with a
  zero-sized dimension, an RGBA pixel, and a 2x2 buffer with no channel.
  \<open>small_ints\<close> is \<^verbatim>\<open>float64\<close> arithmetic where it does not round: on integers of
  magnitude up to \<open>2\<^sup>5\<^sup>3\<close> whose results stay in that range. The inputs below use it
  only there (pixel values up to 255, weights up to 65025, \<open>k\<close> of magnitude up to 10).
\<close>

definition small_ints :: fp where
  "small_ints = \<lparr>fadd = (+), fsub = (-), fsquare = (\<lambda>x. x * x), fsum = sum_list,
                  int_to_float = of_int\<rparr>"

definition numpy :: "bool \<Rightarrow> (nat \<Rightarrow> nat) \<Rightarrow> libs" where
  "numpy np2 draws = \<lparr>nep50 = np2, gaussian = (\<lambda>a s. a), randint = draws\<rparr>"

definition img_a :: ndarray where
  "img_a = \<lparr>height = 1, width = 2, channels = None, pixels = UInt8 [3, 5]\<rparr>"

definition img4 :: ndarray where
  "img4 = \<lparr>height = 1, width = 4, channels = None, pixels = UInt8 [0, 0, 255, 255]\<rparr>"

definition img4f :: ndarray where
  "img4f = \<lparr>height = 1, width = 4, channels = None, pixels = Float64 [0, 0, 255, 255]\<rparr>"

definition img8 :: ndarray where
  "img8 = \<lparr>height = 1, width = 8, channels = None, pixels = UInt8 [22, 22, 22, 22, 10, 10, 0, 0]\<rparr>"

definition img_empty :: ndarray where
  "img_empty = \<lparr>height = 0, width = 4, channels = None, pixels = UInt8 []\<rparr>"

definition img_rgba :: ndarray where
  "img_rgba = \<lparr>height = 1, width = 1, channels = Some 4, pixels = UInt8 [9, 9, 9, 255]\<rparr>"

definition img_c0 :: ndarray where
  "img_c0 = \<lparr>height = 2, width = 2, channels = Some 0, pixels = UInt8 []\<rparr>"

text \<open>
  The component size of the specification, in its words: the count of indices whose
  root resolves (via \<^verbatim>\<open>find\<close>) to the given root. Pass 2 of the source does not call
  such a function; this definition is here to be compared with what Pass 2 computes.
\<close>

definition spec_component_size :: "union_find \<Rightarrow> nat \<Rightarrow> nat" where
  "spec_component_size uf r =
     length (filter (\<lambda>i. case find uf (int i) of Inl e \<Rightarrow> False | Inr (uf', r') \<Rightarrow> r' = r)
                    [0..<length (parent uf)])"

section \<open>Notions used in the proofs\<close>

text \<open>
  \<open>root_of p a r\<close>: following \<^verbatim>\<open>parent\<close> from position \<open>a\<close> ends at \<open>r\<close>, and
  \<open>r\<close> is its own parent. \<open>ranked rk p\<close>: every entry of \<open>p\<close> is a position of
  \<open>p\<close>, and the rank grows strictly from a position to its parent. \<open>roots p\<close> are
  the positions that are their own parent. \<open>uf_inv\<close> is the invariant of the class:
  \<^verbatim>\<open>rank\<close> and \<^verbatim>\<open>parent\<close> have one length, the forest is ranked, and
  \<^verbatim>\<open>num_sets\<close> counts the roots. \<open>above rk a\<close>, the positions
  of higher rank than \<open>a\<close>, bounds the depth of \<^verbatim>\<open>find\<close>.
\<close>

inductive root_of :: "nat list \<Rightarrow> nat \<Rightarrow> nat \<Rightarrow> bool" where
  root: "a < length p \<Longrightarrow> p ! a = a \<Longrightarrow> root_of p a a"
| step: "a < length p \<Longrightarrow> p ! a \<noteq> a \<Longrightarrow> root_of p (p ! a) r \<Longrightarrow> root_of p a r"

definition ranked :: "nat list \<Rightarrow> nat list \<Rightarrow> bool" where
  "ranked rk p \<longleftrightarrow>
     length rk = length p \<and>
     (\<forall>a<length p. p ! a < length p \<and> (p ! a \<noteq> a \<longrightarrow> rk ! a < rk ! (p ! a)))"

definition above :: "nat list \<Rightarrow> nat \<Rightarrow> nat set" where
  "above rk a = {b. b < length rk \<and> rk ! a < rk ! b}"

definition roots :: "nat list \<Rightarrow> nat set" where
  "roots p = {a. a < length p \<and> p ! a = a}"

definition uf_inv :: "union_find \<Rightarrow> bool" where
  "uf_inv u \<longleftrightarrow>
     length (rank u) = length (parent u) \<and>
     list_all (\<lambda>a. parent u ! a < length (parent u) \<and>
                    (parent u ! a \<noteq> a \<longrightarrow> rank u ! a < rank u ! (parent u ! a)))
              [0..<length (parent u)] \<and>
     num_sets u = int (length (filter (\<lambda>a. parent u ! a = a) [0..<length (parent u)]))"

text \<open>
  The order of \<^verbatim>\<open>get_largest_components\<close> on (root, size) pairs: larger size first,
  and among equal sizes the smaller root first.
\<close>

definition by_size_then_root :: "nat \<times> nat \<Rightarrow> nat \<times> nat \<Rightarrow> bool" where
  "by_size_then_root a b \<longleftrightarrow> snd a > snd b \<or> (snd a = snd b \<and> fst a < fst b)"

text \<open>
  \<open>edges_below n es\<close>: both endpoints of every edge are pixel indices below \<open>n\<close>.
  \<open>smoothed\<close> is the buffer the graph is built from. For the colouring loop:
  \<open>col_kind\<close> is the shape of a colour (a scalar, or an array of some length),
  \<open>col_fits\<close> tells whether a colour of that shape can be assigned to a pixel of the
  given channel count, \<open>cc_kind\<close> says that every stored colour has the shape the
  loop generates, and \<open>paint_agree\<close> relates two states of the loop that agree on
  everything but the colours drawn.
\<close>

definition edges_below :: "nat \<Rightarrow> edge list \<Rightarrow> bool" where
  "edges_below n es \<longleftrightarrow> (\<forall>e\<in>set es. fst (snd e) < n \<and> snd (snd e) < n)"

definition smoothed :: "libs \<Rightarrow> ndarray \<Rightarrow> rat \<Rightarrow> ndarray" where
  "smoothed L img sigma = (if sigma > 0 then gaussian L img sigma else img)"

fun col_kind :: "color \<Rightarrow> nat option" where
  "col_kind (Scalar v) = None"
| "col_kind (Triple vs) = Some (length vs)"

definition col_fits :: "nat option \<Rightarrow> nat option \<Rightarrow> bool" where
  "col_fits ch kind \<longleftrightarrow> (case kind of None \<Rightarrow> True | Some l \<Rightarrow> ch = Some l)"

definition cc_kind :: "bool \<Rightarrow> (nat \<rightharpoonup> color) \<Rightarrow> bool" where
  "cc_kind ic cc \<longleftrightarrow> (\<forall>r c. cc r = Some c \<longrightarrow> col_kind c = (if ic then Some 3 else None))"

definition paint_agree :: "nat \<Rightarrow> paint_state \<Rightarrow> paint_state \<Rightarrow> bool" where
  "paint_agree seg s t \<longleftrightarrow>
     (case s of (uf, cc, d, h) \<Rightarrow> case t of (uf', cc', d', h') \<Rightarrow>
        uf = uf' \<and> (\<forall>r. map_option col_kind (cc r) = map_option col_kind (cc' r)) \<and>
        seg < length h \<and> seg < length h' \<and> channels (h ! seg) = channels (h' ! seg))"

section \<open>The forest: roots, compression and linking\<close>

lemma root_of_is_root: "root_of p a r \<Longrightarrow> a < length p \<and> r < length p \<and> p ! r = r"
  by (induction rule: root_of.induct) auto

lemma root_of_self: "root_of p a a \<Longrightarrow> p ! a = a"
  using root_of_is_root by blast

lemma root_of_fun: "root_of p a r \<Longrightarrow> root_of p a r' \<Longrightarrow> r = r'"
proof (induction arbitrary: r' rule: root_of.induct)
  case (root a p)
  then show ?case by (auto elim: root_of.cases)
next
  case (step a p r)
  from step.prems step.hyps show ?case
    by (auto elim!: root_of.cases[of p a r'] intro: step.IH)
qed

lemma root_of_rank: "root_of p a r \<Longrightarrow> ranked rk p \<Longrightarrow> rk ! a \<le> rk ! r"
proof (induction rule: root_of.induct)
  case (root a p)
  then show ?case by simp
next
  case (step a p r)
  then have "rk ! a < rk ! (p ! a)" by (simp add: ranked_def)
  with step show ?case by simp
qed

lemma above_finite: "finite (above rk a)"
  by (simp add: above_def)

lemma above_card_lt: "a < length rk \<Longrightarrow> card (above rk a) < length rk"
proof -
  assume a: "a < length rk"
  have "above rk a \<subseteq> {0..<length rk} - {a}" by (auto simp: above_def)
  then have "card (above rk a) \<le> card ({0..<length rk} - {a})"
    by (intro card_mono) auto
  also have "\<dots> < length rk" using a by simp
  finally show ?thesis .
qed

lemma above_step:
  assumes "b < length rk" "rk ! a < rk ! b"
  shows "card (above rk b) < card (above rk a)"
proof (rule psubset_card_mono)
  show "finite (above rk a)" by (rule above_finite)
  have "b \<in> above rk a" "b \<notin> above rk b" using assms by (auto simp: above_def)
  moreover have "above rk b \<subseteq> above rk a" using assms by (auto simp: above_def)
  ultimately show "above rk b \<subset> above rk a" by blast
qed

lemma compress_one:
  assumes ar: "root_of p a r"
  shows "root_of (p[a := r]) b r' \<longleftrightarrow> root_of p b r'"
proof
  have facts: "a < length p" "r < length p" "p ! r = r"
    using root_of_is_root[OF ar] by auto
  { assume "root_of p b r'"
    then show "root_of (p[a := r]) b r'" using ar
    proof (induction rule: root_of.induct)
      case (root b q)
      show ?case
      proof (cases "b = a")
        case True
        have "root_of q a a" using root True by (auto intro: root_of.root)
        then have "r = a" using root.prems root_of_fun by blast
        then show ?thesis using root True by (auto intro: root_of.root)
      next
        case False
        then show ?thesis using root by (auto intro: root_of.root)
      qed
    next
      case (step b q s)
      show ?case
      proof (cases "b = a")
        case True
        have "root_of q a s" using step True by (auto intro: root_of.step)
        then have rr: "s = r" using step.prems root_of_fun by blast
        have f: "a < length q" "r < length q" "q ! r = r"
          using root_of_is_root[OF step.prems] by auto
        have "r \<noteq> a" using step True f by auto
        then have "root_of (q[a := r]) r r" using f by (auto intro: root_of.root)
        then show ?thesis using True rr f \<open>r \<noteq> a\<close> by (auto intro: root_of.step)
      next
        case False
        then show ?thesis using step by (auto intro: root_of.step)
      qed
    qed }
  { assume "root_of (p[a := r]) b r'"
    then show "root_of p b r'" using ar
    proof (induction "p[a := r]" b r' arbitrary: rule: root_of.induct)
      case (root b)
      show ?case
      proof (cases "b = a")
        case True
        then have "r = a" using root facts by simp
        then show ?thesis using True ar by simp
      next
        case False
        then show ?thesis using root by (auto intro: root_of.root)
      qed
    next
      case (step b r')
      show ?case
      proof (cases "b = a")
        case True
        then have "(p[a := r]) ! b = r" using facts by simp
        then have "root_of p r r'" using step by simp
        moreover have "root_of p r r" using facts by (auto intro: root_of.root)
        ultimately have "r' = r" using root_of_fun by blast
        then show ?thesis using True ar by simp
      next
        case False
        then show ?thesis using step by (auto intro: root_of.step)
      qed
    qed }
qed

lemma resolve_nat [simp]: "a < n \<Longrightarrow> resolve n (int a) = Some a"
  by (simp add: resolve_def)

lemma resolve_None: "resolve n i = None \<longleftrightarrow> i < - int n \<or> int n \<le> i"
  by (auto simp: resolve_def)

lemma resolve_Some_lt: "resolve n i = Some a \<Longrightarrow> a < n"
  by (auto simp: resolve_def split: if_splits)

lemma find_rec_in_range:
  "find_rec d p i = Inr (p', r) \<Longrightarrow> r < length p \<and> length p' = length p"
proof (induction d arbitrary: i p' r)
  case 0
  then show ?case by simp
next
  case (Suc d)
  from Suc.prems obtain a where a: "resolve (length p) i = Some a"
    by (cases "resolve (length p) i") auto
  then have al: "a < length p" by (rule resolve_Some_lt)
  show ?case
  proof (cases "int (p ! a) \<noteq> i")
    case True
    with Suc.prems a obtain p1 r1 where rec: "find_rec d p (int (p ! a)) = Inr (p1, r1)"
      and res: "p' = p1[a := r1]" "r = p1[a := r1] ! a"
      by (auto split: sum.splits)
    from Suc.IH[OF rec] have "r1 < length p" "length p1 = length p" by simp_all
    then show ?thesis using res al by simp
  next
    case False
    then have "i = int a" using a by (auto simp: resolve_def split: if_splits)
    then show ?thesis using Suc.prems a False al by auto
  qed
qed

lemma ranked_update:
  assumes rk: "ranked rk p" and a: "a < length p" and r: "r < length p"
    and le: "r \<noteq> a \<Longrightarrow> rk ! a < rk ! r"
  shows "ranked rk (p[a := r])"
  using assms by (auto simp: ranked_def nth_list_update)

lemma find_rec_spec:
  assumes rk: "ranked rk p"
  shows "a < length p \<Longrightarrow> card (above rk a) < d \<Longrightarrow>
     \<exists>p' r. find_rec d p (int a) = Inr (p', r) \<and> root_of p a r \<and> length p' = length p \<and>
       ranked rk p' \<and> (\<forall>b s. root_of p' b s \<longleftrightarrow> root_of p b s) \<and> p' ! a = r"
proof (induction d arbitrary: a)
  case 0
  then show ?case by simp
next
  case (Suc d)
  show ?case
  proof (cases "p ! a = a")
    case True
    then show ?thesis using Suc.prems rk by (auto intro: root_of.root)
  next
    case False
    define c where "c = p ! a"
    have len: "length rk = length p" using rk by (simp add: ranked_def)
    have c: "c < length p" "rk ! a < rk ! c"
      using rk Suc.prems False by (auto simp: ranked_def c_def)
    have "card (above rk c) < card (above rk a)"
      using above_step[of c rk a] c len by simp
    then have "card (above rk c) < d" using Suc.prems by simp
    from Suc.IH[OF c(1) this] obtain p1 r where
      f: "find_rec d p (int c) = Inr (p1, r)" and cr: "root_of p c r"
      and l1: "length p1 = length p" and rk1: "ranked rk p1"
      and eq1: "\<forall>b s. root_of p1 b s \<longleftrightarrow> root_of p b s"
      by blast
    have ar: "root_of p a r"
      using Suc.prems False cr by (auto simp: c_def intro: root_of.step)
    then have ar1: "root_of p1 a r" using eq1 by simp
    have r: "r < length p" using root_of_is_root[OF cr] by simp
    have "rk ! c \<le> rk ! r" using root_of_rank[OF cr rk] .
    then have "rk ! a < rk ! r" using c by simp
    then have rk2: "ranked rk (p1[a := r])"
      using ranked_update[OF rk1] Suc.prems r l1 by simp
    have eq2: "\<forall>b s. root_of (p1[a := r]) b s \<longleftrightarrow> root_of p b s"
      using compress_one[OF ar1] eq1 by simp
    have "find_rec (Suc d) p (int a) = Inr (p1[a := r], r)"
      using Suc.prems False f l1 by (simp add: c_def)
    then show ?thesis using ar l1 rk2 eq2 Suc.prems by simp
  qed
qed

lemma card_roots: "card (roots p) = length (filter (\<lambda>a. p ! a = a) [0..<length p])"
proof -
  have "set (filter (\<lambda>a. p ! a = a) [0..<length p]) = roots p"
    by (auto simp: roots_def)
  moreover have "distinct (filter (\<lambda>a. p ! a = a) [0..<length p])" by simp
  ultimately show ?thesis using distinct_card by metis
qed

lemma uf_inv_iff:
  "uf_inv u \<longleftrightarrow> ranked (rank u) (parent u) \<and> num_sets u = int (card (roots (parent u)))"
  by (auto simp: uf_inv_def ranked_def card_roots list_all_iff)

lemma roots_iff: "a \<in> roots p \<longleftrightarrow> root_of p a a"
  by (auto simp: roots_def intro: root_of.root dest: root_of_is_root)

lemma roots_cong: "(\<forall>b s. root_of p' b s \<longleftrightarrow> root_of p b s) \<Longrightarrow> roots p' = roots p"
  using roots_iff by blast

lemma ranked_total:
  assumes rk: "ranked rk p" and a: "a < length p"
  shows "\<exists>r. root_of p a r"
  using find_rec_spec[OF rk a, of "Suc (card (above rk a))"] by blast

lemma find_rec_resolve:
  assumes rk: "ranked rk p" and res: "resolve (length p) i = Some a"
  shows "\<exists>p' r. find_rec (Suc (length p)) p i = Inr (p', r) \<and> root_of p a r \<and>
       length p' = length p \<and> ranked rk p' \<and> (\<forall>b s. root_of p' b s \<longleftrightarrow> root_of p b s)"
proof -
  have a: "a < length p" using res by (rule resolve_Some_lt)
  have len: "length rk = length p" using rk by (simp add: ranked_def)
  show ?thesis
  proof (cases "0 \<le> i")
    case True
    then have i: "i = int a" using res by (auto simp: resolve_def split: if_splits)
    have "card (above rk a) < Suc (length p)" using above_card_lt[of a rk] a len by simp
    from find_rec_spec[OF rk a this] show ?thesis unfolding i by blast
  next
    case False
    define c where "c = p ! a"
    have c: "c < length p" using rk a by (simp add: ranked_def c_def)
    have "card (above rk c) < length p" using above_card_lt[of c rk] c len by simp
    from find_rec_spec[OF rk c this] obtain p1 r where
      f: "find_rec (length p) p (int c) = Inr (p1, r)" and cr: "root_of p c r"
      and l1: "length p1 = length p" and rk1: "ranked rk p1"
      and eq1: "\<forall>b s. root_of p1 b s \<longleftrightarrow> root_of p b s"
      by blast
    have ar: "root_of p a r"
    proof (cases "c = a")
      case True
      then show ?thesis using cr by simp
    next
      case False
      then show ?thesis using a cr by (auto simp: c_def intro: root_of.step)
    qed
    have r: "r < length p" using root_of_is_root[OF cr] by simp
    have "rk ! a < rk ! r" if "r \<noteq> a"
    proof -
      have "c \<noteq> a"
      proof
        assume "c = a"
        then have "root_of p a a" using a by (auto simp: c_def intro: root_of.root)
        then show False using ar that root_of_fun by blast
      qed
      then have "rk ! a < rk ! c" using rk a by (auto simp: ranked_def c_def)
      moreover have "rk ! c \<le> rk ! r" using root_of_rank[OF cr rk] .
      ultimately show ?thesis by simp
    qed
    then have rk2: "ranked rk (p1[a := r])"
      using ranked_update[OF rk1, of a r] a r l1 by auto
    have eq2: "\<forall>b s. root_of (p1[a := r]) b s \<longleftrightarrow> root_of p b s"
      using compress_one[of p1 a r] ar eq1 by simp
    have "int (p ! a) \<noteq> i" using False by simp
    then have "find_rec (Suc (length p)) p i = Inr (p1[a := r], r)"
      using res f l1 a by (simp add: c_def)
    then show ?thesis using ar l1 rk2 eq2 by simp
  qed
qed

lemma find_spec:
  assumes inv: "uf_inv u" and res: "resolve (length (parent u)) i = Some a"
  shows "\<exists>u' r. find u i = Inr (u', r) \<and> root_of (parent u) a r \<and> uf_inv u' \<and>
       length (parent u') = length (parent u) \<and> rank u' = rank u \<and>
       num_sets u' = num_sets u \<and>
       (\<forall>b s. root_of (parent u') b s \<longleftrightarrow> root_of (parent u) b s)"
proof -
  have rk: "ranked (rank u) (parent u)" using inv by (simp add: uf_inv_iff)
  from find_rec_resolve[OF rk res] obtain p' r where
    f: "find_rec (Suc (length (parent u))) (parent u) i = Inr (p', r)"
    and ar: "root_of (parent u) a r" and l: "length p' = length (parent u)"
    and rk': "ranked (rank u) p'"
    and eq: "\<forall>b s. root_of p' b s \<longleftrightarrow> root_of (parent u) b s"
    by blast
  have "roots p' = roots (parent u)" using eq by (rule roots_cong)
  then have "uf_inv (u\<lparr>parent := p'\<rparr>)" using inv rk' by (simp add: uf_inv_iff)
  moreover have "find u i = Inr (u\<lparr>parent := p'\<rparr>, r)" using f by (simp add: find_def)
  ultimately show ?thesis using ar l eq by simp
qed

lemma link_root_of:
  "root_of p a s \<Longrightarrow> x < length p \<Longrightarrow> p ! x = x \<Longrightarrow> y < length p \<Longrightarrow> p ! y = y \<Longrightarrow>
     x \<noteq> y \<Longrightarrow> root_of (p[y := x]) a (if s = y then x else s)"
proof (induction rule: root_of.induct)
  case (root b q)
  show ?case
  proof (cases "b = y")
    case True
    have "root_of (q[y := x]) x x" using root by (auto intro: root_of.root)
    then show ?thesis using True root by (auto intro: root_of.step)
  next
    case False
    then show ?thesis using root by (auto intro: root_of.root)
  qed
next
  case (step b q s)
  then have "b \<noteq> y" by auto
  then show ?case using step by (auto intro: root_of.step)
qed

lemma roots_link:
  assumes "x < length p" "p ! x = x" "y < length p" "p ! y = y" "x \<noteq> y"
  shows "roots (p[y := x]) = roots p - {y}"
  using assms by (auto simp: roots_def nth_list_update)

lemma roots_finite: "finite (roots p)"
  by (simp add: roots_def)

lemma card_roots_link:
  assumes "x < length p" "p ! x = x" "y < length p" "p ! y = y" "x \<noteq> y"
  shows "int (card (roots (p[y := x]))) = int (card (roots p)) - 1"
proof -
  have "y \<in> roots p" using assms by (simp add: roots_def)
  then have "card (roots p - {y}) = card (roots p) - 1" "0 < card (roots p)"
    using roots_finite[of p] by (auto simp: card_gt_0_iff)
  then show ?thesis using roots_link[OF assms] by simp
qed

lemma ranked_link_lt:
  assumes rk: "ranked rk p" and "x < length p" "y < length p" "rk ! y < rk ! x"
  shows "ranked rk (p[y := x])"
  using ranked_update[OF rk, of y x] assms by simp

lemma ranked_link_eq:
  assumes rk: "ranked rk p" and x: "x < length p" "p ! x = x" and y: "y < length p"
    and ne: "x \<noteq> y" and eq: "rk ! x = rk ! y"
  shows "ranked (rk[x := rk ! x + 1]) (p[y := x])"
  unfolding ranked_def
proof (intro conjI allI impI)
  show "length (rk[x := rk ! x + 1]) = length (p[y := x])"
    using rk by (simp add: ranked_def)
next
  fix a assume a: "a < length (p[y := x])"
  then show "p[y := x] ! a < length (p[y := x])"
    using rk x y by (auto simp: ranked_def nth_list_update)
next
  fix a assume a: "a < length (p[y := x])" and nr: "p[y := x] ! a \<noteq> a"
  have len: "length rk = length p" using rk by (simp add: ranked_def)
  show "rk[x := rk ! x + 1] ! a < rk[x := rk ! x + 1] ! (p[y := x] ! a)"
  proof (cases "a = y")
    case True
    then show ?thesis using x y ne eq len by (simp add: nth_list_update)
  next
    case False
    then have pa: "p[y := x] ! a = p ! a" "p ! a \<noteq> a" using nr by auto
    then have "a \<noteq> x" using x by auto
    moreover have "rk ! a < rk ! (p ! a)" "p ! a < length p"
      using rk a pa by (auto simp: ranked_def)
    ultimately show ?thesis using pa len
      by (cases "p ! a = x") (auto simp: nth_list_update)
  qed
qed

lemma union_spec:
  assumes inv: "uf_inv u"
    and ri: "resolve (length (parent u)) i = Some a"
    and rj: "resolve (length (parent u)) j = Some b"
    and ar: "root_of (parent u) a x" and br: "root_of (parent u) b y"
  shows "\<exists>u'. union u i j = Inr (u', None) \<and> uf_inv u' \<and>
       length (parent u') = length (parent u) \<and>
       (x = y \<longrightarrow> num_sets u' = num_sets u \<and> rank u' = rank u \<and>
          (\<forall>c s. root_of (parent u') c s \<longleftrightarrow> root_of (parent u) c s)) \<and>
       (x \<noteq> y \<longrightarrow> num_sets u' = num_sets u - 1 \<and>
          (\<exists>z. (z = x \<or> z = y) \<and>
            (\<forall>c s. root_of (parent u) c s \<longrightarrow>
               root_of (parent u') c (if s = x \<or> s = y then z else s))))"
proof -
  from find_spec[OF inv ri] obtain u1 x' where
    f1: "find u i = Inr (u1, x')" and ax': "root_of (parent u) a x'" and inv1: "uf_inv u1"
    and l1: "length (parent u1) = length (parent u)" and r1: "rank u1 = rank u"
    and n1: "num_sets u1 = num_sets u"
    and e1: "\<forall>c s. root_of (parent u1) c s \<longleftrightarrow> root_of (parent u) c s"
    by blast
  have x': "x' = x" using ax' ar root_of_fun by blast
  have rj1: "resolve (length (parent u1)) j = Some b" using rj l1 by simp
  from find_spec[OF inv1 rj1] obtain u2 y' where
    f2: "find u1 j = Inr (u2, y')" and by': "root_of (parent u1) b y'" and inv2: "uf_inv u2"
    and l2: "length (parent u2) = length (parent u1)" and r2: "rank u2 = rank u1"
    and n2: "num_sets u2 = num_sets u1"
    and e2: "\<forall>c s. root_of (parent u2) c s \<longleftrightarrow> root_of (parent u1) c s"
    by blast
  have y': "y' = y" using by' br e1 root_of_fun by blast
  have e: "\<forall>c s. root_of (parent u2) c s \<longleftrightarrow> root_of (parent u) c s"
    using e1 e2 by simp
  show ?thesis
  proof (cases "x = y")
    case True
    then have "union u i j = Inr (u2, None)" using f1 f2 x' y' by (simp add: union_def)
    then show ?thesis using True inv2 l1 l2 r1 r2 n1 n2 e by simp
  next
    case False
    let ?p = "parent u2" and ?rk = "rank u2"
    have rk: "ranked ?rk ?p" and ns: "num_sets u2 = int (card (roots ?p))"
      using inv2 by (simp_all add: uf_inv_iff)
    have len: "length ?rk = length ?p" using rk by (simp add: ranked_def)
    have X: "x < length ?p" "?p ! x = x"
      using root_of_is_root[OF ar] e roots_iff[of x "parent u"] roots_iff[of x ?p] l1 l2
      by (auto simp: roots_def)
    have Y: "y < length ?p" "?p ! y = y"
      using root_of_is_root[OF br] e roots_iff[of y "parent u"] roots_iff[of y ?p] l1 l2
      by (auto simp: roots_def)
    have ne': "y \<noteq> x" using False by simp
    consider (lt) "?rk ! x < ?rk ! y" | (gt) "?rk ! y < ?rk ! x" | (eq) "?rk ! x = ?rk ! y"
      by linarith
    then show ?thesis
    proof cases
      case lt
      define u' where "u' = u2\<lparr>parent := ?p[x := y], num_sets := num_sets u2 - 1\<rparr>"
      have un: "union u i j = Inr (u', None)"
        using f1 f2 x' y' False lt by (simp add: union_def u'_def Let_def)
      have "ranked ?rk (?p[x := y])" using ranked_link_lt[OF rk Y(1) X(1) lt] .
      moreover have "int (card (roots (?p[x := y]))) = int (card (roots ?p)) - 1"
        using card_roots_link[OF Y X ne'] .
      ultimately have "uf_inv u'" using ns by (simp add: uf_inv_iff u'_def)
      moreover have "\<exists>z. (z = x \<or> z = y) \<and> (\<forall>c s. root_of (parent u) c s \<longrightarrow>
               root_of (parent u') c (if s = x \<or> s = y then z else s))"
      proof (intro exI[of _ y] conjI allI impI)
        show "y = x \<or> y = y" by simp
      next
        fix c s assume "root_of (parent u) c s"
        then have "root_of ?p c s" using e by simp
        from link_root_of[OF this Y X ne']
        show "root_of (parent u') c (if s = x \<or> s = y then y else s)"
          by (cases "s = x") (simp_all add: u'_def)
      qed
      moreover have "length (parent u') = length (parent u)" "num_sets u' = num_sets u - 1"
        using l1 l2 n1 n2 by (simp_all add: u'_def)
      ultimately show ?thesis using un False by blast
    next
      case gt
      define u' where "u' = u2\<lparr>parent := ?p[y := x], num_sets := num_sets u2 - 1\<rparr>"
      have un: "union u i j = Inr (u', None)"
        using f1 f2 x' y' False gt by (simp add: union_def u'_def Let_def)
      have "ranked ?rk (?p[y := x])" using ranked_link_lt[OF rk X(1) Y(1) gt] .
      moreover have "int (card (roots (?p[y := x]))) = int (card (roots ?p)) - 1"
        using card_roots_link[OF X Y False] .
      ultimately have "uf_inv u'" using ns by (simp add: uf_inv_iff u'_def)
      moreover have "\<exists>z. (z = x \<or> z = y) \<and> (\<forall>c s. root_of (parent u) c s \<longrightarrow>
               root_of (parent u') c (if s = x \<or> s = y then z else s))"
      proof (intro exI[of _ x] conjI allI impI)
        show "x = x \<or> x = y" by simp
      next
        fix c s assume "root_of (parent u) c s"
        then have "root_of ?p c s" using e by simp
        from link_root_of[OF this X Y False]
        show "root_of (parent u') c (if s = x \<or> s = y then x else s)"
          by (cases "s = y") (simp_all add: u'_def)
      qed
      moreover have "length (parent u') = length (parent u)" "num_sets u' = num_sets u - 1"
        using l1 l2 n1 n2 by (simp_all add: u'_def)
      ultimately show ?thesis using un False by blast
    next
      case eq
      define u' where "u' = u2\<lparr>parent := ?p[y := x], rank := ?rk[x := ?rk ! x + 1],
                               num_sets := num_sets u2 - 1\<rparr>"
      have un: "union u i j = Inr (u', None)"
        using f1 f2 x' y' False eq by (simp add: union_def u'_def Let_def)
      have "ranked (?rk[x := ?rk ! x + 1]) (?p[y := x])"
        using ranked_link_eq[OF rk X Y(1) False eq] .
      moreover have "int (card (roots (?p[y := x]))) = int (card (roots ?p)) - 1"
        using card_roots_link[OF X Y False] .
      ultimately have "uf_inv u'" using ns by (simp add: uf_inv_iff u'_def)
      moreover have "\<exists>z. (z = x \<or> z = y) \<and> (\<forall>c s. root_of (parent u) c s \<longrightarrow>
               root_of (parent u') c (if s = x \<or> s = y then z else s))"
      proof (intro exI[of _ x] conjI allI impI)
        show "x = x \<or> x = y" by simp
      next
        fix c s assume "root_of (parent u) c s"
        then have "root_of ?p c s" using e by simp
        from link_root_of[OF this X Y False]
        show "root_of (parent u') c (if s = x \<or> s = y then x else s)"
          by (cases "s = y") (simp_all add: u'_def)
      qed
      moreover have "length (parent u') = length (parent u)" "num_sets u' = num_sets u - 1"
        using l1 l2 n1 n2 by (simp_all add: u'_def)
      ultimately show ?thesis using un False by blast
    qed
  qed
qed

lemma ranked_init: "ranked (replicate n 0) [0..<n]"
  by (simp add: ranked_def)

lemma roots_init: "roots [0..<n] = {0..<n}"
  by (auto simp: roots_def)

lemma uf_inv_init: "uf_inv (uf_init n)"
  by (simp add: uf_inv_iff uf_init_def ranked_init roots_init)

lemma length_parent_init [simp]: "length (parent (uf_init n)) = n"
  by (simp add: uf_init_def)

lemma find_IndexError:
  "resolve (length (parent u)) i = None \<Longrightarrow> find u i = Inl IndexError"
  by (simp add: find_def)

lemma find_not_IndexError:
  assumes "uf_inv u" "resolve (length (parent u)) i = Some a"
  shows "find u i \<noteq> Inl IndexError"
  using find_spec[OF assms] by auto

lemma union_inv:
  assumes inv: "uf_inv u" and un: "union u i j = Inr (u', v)"
  shows "uf_inv u' \<and> length (parent u') = length (parent u) \<and> v = None"
proof -
  obtain a where a: "resolve (length (parent u)) i = Some a"
    using un find_IndexError[of u i] by (cases "resolve (length (parent u)) i") (auto simp: union_def)
  from find_spec[OF inv a] obtain u1 x where
    f1: "find u i = Inr (u1, x)" and ax: "root_of (parent u) a x"
    and l1: "length (parent u1) = length (parent u)" by blast
  obtain b where b: "resolve (length (parent u)) j = Some b"
    using un f1 l1 find_IndexError[of u1 j]
    by (cases "resolve (length (parent u)) j") (auto simp: union_def)
  have "b < length (parent u)" using b by (rule resolve_Some_lt)
  then obtain y where "root_of (parent u) b y"
    using ranked_total[of "rank u" "parent u" b] inv by (auto simp: uf_inv_iff)
  from union_spec[OF inv a b ax this] un show ?thesis by auto
qed

lemma unions_inv:
  "uf_inv u \<Longrightarrow> unions u ops = Inr u' \<Longrightarrow> uf_inv u' \<and> length (parent u') = length (parent u)"
proof (induction ops arbitrary: u)
  case Nil
  then show ?case by simp
next
  case (Cons op ops)
  obtain i j where op: "op = (i, j)" by (cases op)
  from Cons.prems obtain u1 v where u1: "union u i j = Inr (u1, v)" and rest: "unions u1 ops = Inr u'"
    by (auto simp: op split: sum.splits)
  from union_inv[OF Cons.prems(1) u1] Cons.IH[OF _ rest] show ?case by simp
qed

lemma unions_total:
  "uf_inv u \<Longrightarrow> \<forall>(i, j)\<in>set ops. 0 \<le> i \<and> i < int (length (parent u)) \<and> 0 \<le> j \<and> j < int (length (parent u)) \<Longrightarrow>
     \<exists>u'. unions u ops = Inr u'"
proof (induction ops arbitrary: u)
  case Nil
  then show ?case by simp
next
  case (Cons op ops)
  obtain i j where op: "op = (i, j)" by (cases op)
  let ?n = "length (parent u)"
  have r: "resolve ?n i = Some (nat i)" "resolve ?n j = Some (nat j)"
    using Cons.prems(2) by (auto simp: op resolve_def)
  then have "nat i < ?n" "nat j < ?n" by (auto dest: resolve_Some_lt)
  then obtain x y where "root_of (parent u) (nat i) x" "root_of (parent u) (nat j) y"
    using ranked_total[of "rank u" "parent u"] Cons.prems(1) by (auto simp: uf_inv_iff) blast
  from union_spec[OF Cons.prems(1) r this] obtain u1 where
    u1: "union u i j = Inr (u1, None)" "uf_inv u1" "length (parent u1) = ?n" by blast
  then have "\<exists>u'. unions u1 ops = Inr u'" using Cons.IH[of u1] Cons.prems(2) by simp
  then show ?case using u1 by (simp add: op)
qed

lemma find_at_root:
  assumes "r < length (parent u)" "parent u ! r = r"
  shows "find u (int r) = Inr (u, r)"
  using assms by (simp add: find_def)

lemma find_result:
  assumes inv: "uf_inv u" and a: "a < length (parent u)"
  shows "\<exists>u' r. find u (int a) = Inr (u', r) \<and> root_of (parent u) a r \<and> uf_inv u' \<and>
       length (parent u') = length (parent u) \<and> rank u' = rank u \<and> num_sets u' = num_sets u \<and>
       (\<forall>b s. root_of (parent u') b s \<longleftrightarrow> root_of (parent u) b s)"
  using find_spec[OF inv, of "int a" a] a by simp

lemma find_is_root_of:
  assumes inv: "uf_inv u" and a: "a < length (parent u)"
  shows "(\<exists>u'. find u (int a) = Inr (u', r)) \<longleftrightarrow> root_of (parent u) a r"
  using find_result[OF inv a] root_of_fun by fastforce

lemma find_values: 
  assumes inv: "uf_inv u"
  shows "{r. \<exists>a<length (parent u). \<exists>u'. find u (int a) = Inr (u', r)} = roots (parent u)"
proof -
  have "(\<exists>a<length (parent u). \<exists>u'. find u (int a) = Inr (u', r)) \<longleftrightarrow> r \<in> roots (parent u)" for r
  proof
    assume "\<exists>a<length (parent u). \<exists>u'. find u (int a) = Inr (u', r)"
    then obtain a where "a < length (parent u)" "root_of (parent u) a r"
      using find_is_root_of[OF inv] by blast
    then show "r \<in> roots (parent u)" using root_of_is_root by (auto simp: roots_def)
  next
    assume "r \<in> roots (parent u)"
    then have "r < length (parent u)" "find u (int r) = Inr (u, r)"
      using find_at_root by (auto simp: roots_def)
    then show "\<exists>a<length (parent u). \<exists>u'. find u (int a) = Inr (u', r)" by blast
  qed
  then show ?thesis by blast
qed

lemma find_all_spec:
  "uf_inv u \<Longrightarrow> \<forall>i\<in>set is. i < length (parent u) \<Longrightarrow>
     \<exists>u' rs. find_all u is = Inr (u', rs) \<and> list_all2 (root_of (parent u)) is rs \<and> uf_inv u' \<and>
       length (parent u') = length (parent u) \<and> rank u' = rank u \<and> num_sets u' = num_sets u \<and>
       (\<forall>b s. root_of (parent u') b s \<longleftrightarrow> root_of (parent u) b s)"
proof (induction "is" arbitrary: u)
  case Nil
  then show ?case by simp
next
  case (Cons i "is")
  have i: "i < length (parent u)" using Cons.prems(2) by simp
  from find_result[OF Cons.prems(1) i] obtain u1 r where
    f: "find u (int i) = Inr (u1, r)" and ir: "root_of (parent u) i r" and inv1: "uf_inv u1"
    and l1: "length (parent u1) = length (parent u)" and r1: "rank u1 = rank u"
    and n1: "num_sets u1 = num_sets u"
    and e1: "\<forall>b s. root_of (parent u1) b s \<longleftrightarrow> root_of (parent u) b s"
    by blast
  have "\<forall>i\<in>set is. i < length (parent u1)" using Cons.prems(2) l1 by simp
  from Cons.IH[OF inv1 this] obtain u2 rs where
    fa: "find_all u1 is = Inr (u2, rs)" and la: "list_all2 (root_of (parent u1)) is rs"
    and inv2: "uf_inv u2" and l2: "length (parent u2) = length (parent u1)"
    and r2: "rank u2 = rank u1" and n2: "num_sets u2 = num_sets u1"
    and e2: "\<forall>b s. root_of (parent u2) b s \<longleftrightarrow> root_of (parent u1) b s"
    by blast
  have "root_of (parent u1) = root_of (parent u)" using e1 by (intro ext) simp
  then have "list_all2 (root_of (parent u)) (i # is) (r # rs)" using la ir by simp
  moreover have "find_all u (i # is) = Inr (u2, r # rs)" using f fa by simp
  ultimately show ?case using inv2 l1 l2 r1 r2 n1 n2 e1 e2 by simp
qed

lemma find_all_roots:
  assumes inv: "uf_inv u" and fa: "find_all u [0..<length (parent u)] = Inr (u', rs)"
  shows "set rs = roots (parent u)"
proof -
  let ?n = "length (parent u)"
  from find_all_spec[OF inv, of "[0..<?n]"] fa
  have la: "list_all2 (root_of (parent u)) [0..<?n] rs" by auto
  then have len: "length rs = ?n" by (auto dest: list_all2_lengthD)
  have nth: "root_of (parent u) a (rs ! a)" if "a < ?n" for a
    using list_all2_nthD[OF la, of a] that by simp
  show ?thesis
  proof (intro set_eqI iffI)
    fix r assume "r \<in> set rs"
    then obtain a where "a < ?n" "rs ! a = r" using len by (auto simp: in_set_conv_nth)
    then show "r \<in> roots (parent u)" using nth[of a] root_of_is_root by (auto simp: roots_def)
  next
    fix r assume r: "r \<in> roots (parent u)"
    then have "r < ?n" "root_of (parent u) r r" by (auto simp: roots_def intro: root_of.root)
    then have "rs ! r = r" using nth[of r] root_of_fun by blast
    then show "r \<in> set rs" using \<open>r < ?n\<close> len by (metis nth_mem)
  qed
qed


section \<open>Component sizes and ranking\<close>

lemma by_size_then_root_ge: "by_size_then_root a b \<Longrightarrow> snd b \<le> snd a"
  by (auto simp: by_size_then_root_def)

lemma insort_desc:
  "sorted_wrt by_size_then_root ys \<Longrightarrow> \<forall>y\<in>set ys. fst x < fst y \<Longrightarrow>
     sorted_wrt by_size_then_root (insort_key (\<lambda>x. - int (snd x)) x ys)"
proof (induction ys)
  case Nil
  then show ?case by simp
next
  case (Cons y ys)
  show ?case
  proof (cases "snd y \<le> snd x")
    case True
    have "by_size_then_root x z" if "z \<in> set (y # ys)" for z
    proof -
      have "snd z \<le> snd y" using Cons.prems(1) that by (auto dest: by_size_then_root_ge)
      moreover have "fst x < fst z" using Cons.prems(2) that by auto
      ultimately show ?thesis using True by (auto simp: by_size_then_root_def)
    qed
    then show ?thesis using True Cons.prems(1) by simp
  next
    case False
    then have "by_size_then_root y x" by (simp add: by_size_then_root_def)
    moreover have "sorted_wrt by_size_then_root (insort_key (\<lambda>x. - int (snd x)) x ys)"
      using Cons by simp
    ultimately show ?thesis using False Cons.prems(1) by (auto simp: set_insort_key)
  qed
qed

lemma sort_key_desc:
  "sorted_wrt (<) (map fst xs) \<Longrightarrow> sorted_wrt by_size_then_root (sort_key (\<lambda>x. - int (snd x)) xs)"
proof (induction xs)
  case Nil
  then show ?case by simp
next
  case (Cons x xs)
  then have "\<forall>y\<in>set (sort_key (\<lambda>x. - int (snd x)) xs). fst x < fst y" by auto
  then show ?case using Cons insort_desc by simp
qed

lemma np_unique_keys:
  "np_unique xs = (us, cs) \<Longrightarrow> sorted_wrt (<) us \<and> set us = set xs \<and> cs = map (count_list xs) us"
  by (auto simp: np_unique_def Let_def strict_sorted_iff)

lemma count_list_card: "count_list xs x = card {i. i < length xs \<and> xs ! i = x}"
  by (simp add: count_list_eq_length_filter length_filter_conv_card eq_commute)

lemma get_component_sizes_spec:
  assumes inv: "uf_inv u"
  shows "\<exists>u' items. get_component_sizes u = Inr (u', items) \<and> uf_inv u' \<and>
      length (parent u') = length (parent u) \<and> num_sets u' = num_sets u \<and>
      sorted_wrt (<) (map fst items) \<and> fst ` set items = roots (parent u) \<and>
      (\<forall>(r, s)\<in>set items. s = card {i. i < length (parent u) \<and> root_of (parent u) i r})"
proof -
  let ?n = "length (parent u)"
  from find_all_spec[OF inv, of "[0..<?n]"] obtain u' rs where
    fa: "find_all u [0..<?n] = Inr (u', rs)" and la: "list_all2 (root_of (parent u)) [0..<?n] rs"
    and inv': "uf_inv u'" and l: "length (parent u') = ?n" and ns: "num_sets u' = num_sets u"
    by auto
  have len: "length rs = ?n" using la by (auto dest: list_all2_lengthD)
  have nth: "root_of (parent u) i (rs ! i)" if "i < ?n" for i
    using list_all2_nthD[OF la, of i] that by simp
  have rs: "set rs = roots (parent u)" using find_all_roots[OF inv fa] .
  obtain us cs where un: "np_unique rs = (us, cs)" by (cases "np_unique rs")
  from np_unique_keys[OF un] have us: "sorted_wrt (<) us" "set us = set rs"
    and cs: "cs = map (count_list rs) us" by auto
  let ?items = "zip us cs"
  have g: "get_component_sizes u = Inr (u', ?items)" using fa un by (simp add: get_component_sizes_def)
  have keys: "map fst ?items = us" using cs by simp
  have cnt: "s = card {i. i < ?n \<and> root_of (parent u) i r}" if "(r, s) \<in> set ?items" for r s
  proof -
    have "s = count_list rs r" using that cs by (auto simp: set_zip)
    also have "\<dots> = card {i. i < ?n \<and> rs ! i = r}" using len by (simp add: count_list_card)
    also have "{i. i < ?n \<and> rs ! i = r} = {i. i < ?n \<and> root_of (parent u) i r}"
      using nth root_of_fun by blast
    finally show ?thesis .
  qed
  have "fst ` set ?items = set (map fst ?items)" by simp
  then have "fst ` set ?items = roots (parent u)" using keys us rs by simp
  then show ?thesis using g inv' l ns keys us cnt by auto
qed

lemma largest_components_spec:
  assumes inv: "uf_inv u" and n: "0 < length (parent u)" and m: "1 \<le> m"
  shows "\<exists>u' rts sizes items full.
     get_component_sizes u = Inr (u', items) \<and>
     get_largest_components u m = Inr (u', rts, sizes) \<and>
     mset full = mset items \<and> sorted_wrt by_size_then_root full \<and>
     zip rts sizes = take (nat m) full \<and> length rts = length sizes \<and>
     sorted_wrt (\<ge>) sizes \<and>
     length rts = min (nat m) (length items) \<and>
     fst ` set items = roots (parent u) \<and>
     (\<forall>(r, s)\<in>set items. s = card {i. i < length (parent u) \<and> root_of (parent u) i r})"
proof -
  from get_component_sizes_spec[OF inv] obtain u' items where
    g: "get_component_sizes u = Inr (u', items)"
    and keys: "sorted_wrt (<) (map fst items)" and dom: "fst ` set items = roots (parent u)"
    and cnt: "\<forall>(r, s)\<in>set items. s = card {i. i < length (parent u) \<and> root_of (parent u) i r}"
    by blast
  define full where "full = sort_key (\<lambda>x. - int (snd x)) items"
  have ms: "mset full = mset items" by (simp add: full_def)
  then have lf: "length full = length items" by (metis size_mset)
  have so: "sorted_wrt by_size_then_root full" unfolding full_def using keys by (rule sort_key_desc)
  obtain r where "root_of (parent u) 0 r"
    using ranked_total[of "rank u" "parent u" 0] inv n by (auto simp: uf_inv_iff)
  then have "r \<in> roots (parent u)" using root_of_is_root by (auto simp: roots_def)
  then have "items \<noteq> []" using dom by auto
  then have ne: "full \<noteq> []" using lf by auto
  define chosen where "chosen = take (nat m) full"
  have ch: "(if int (length full) \<ge> m then slice_to m full else full) = chosen"
    using m by (auto simp: slice_to_def chosen_def)
  have "chosen \<noteq> []" using ne m by (auto simp: chosen_def)
  have "get_largest_components u m =
      (let c = (if int (length full) \<ge> m then slice_to m full else full)
       in if c = [] then Inl ValueError else Inr (u', map fst c, map snd c))"
    by (simp add: get_largest_components_def g Let_def lf flip: full_def)
  then have gl: "get_largest_components u m = Inr (u', map fst chosen, map snd chosen)"
    unfolding ch using \<open>chosen \<noteq> []\<close> by simp
  have z: "zip (map fst chosen) (map snd chosen) = chosen" by (simp add: zip_map_fst_snd)
  have "sorted_wrt (\<lambda>a b. snd a \<ge> snd b) chosen"
    unfolding chosen_def
    by (intro sorted_wrt_take sorted_wrt_mono_rel[OF _ so]) (auto dest: by_size_then_root_ge)
  then have ss: "sorted_wrt (\<ge>) (map snd chosen)" by (simp add: sorted_wrt_map)
  have "length (map fst chosen) = min (nat m) (length items)" using lf by (simp add: chosen_def)
  then show ?thesis using g gl ms so z ss dom cnt
    by (intro exI[of _ u'] exI[of _ "map fst chosen"] exI[of _ "map snd chosen"] exI[of _ items]
          exI[of _ full]) (simp add: chosen_def)
qed

section \<open>The engine: the passes, the colouring loop and the entry point\<close>

lemma pass1_step_spec:
  assumes inv: "uf_inv uf" and u: "u < length (parent uf)" and v: "v < length (parent uf)"
    and ur: "root_of (parent uf) u ru" and vr: "root_of (parent uf) v rv"
  shows "\<exists>uf' thr'. pass1_step F kf (uf, thr) (w, u, v) = Inr (uf', thr') \<and> uf_inv uf' \<and>
      length (parent uf') = length (parent uf) \<and> length thr' = length thr \<and>
      (ru = rv \<or> \<not> w \<le> min (thr ! ru) (thr ! rv) \<longrightarrow>
         thr' = thr \<and> num_sets uf' = num_sets uf \<and> rank uf' = rank uf \<and>
         (\<forall>c s. root_of (parent uf') c s \<longleftrightarrow> root_of (parent uf) c s)) \<and>
      (ru \<noteq> rv \<and> w \<le> min (thr ! ru) (thr ! rv) \<longrightarrow>
         num_sets uf' = num_sets uf - 1 \<and>
         (\<exists>z. (z = ru \<or> z = rv) \<and> thr' = thr[z := fadd F w kf] \<and>
            (\<forall>c s. root_of (parent uf) c s \<longrightarrow>
               root_of (parent uf') c (if s = ru \<or> s = rv then z else s))))"
proof -
  from find_result[OF inv u] obtain uf1 x where
    f1: "find uf (int u) = Inr (uf1, x)" and ux: "root_of (parent uf) u x" and inv1: "uf_inv uf1"
    and l1: "length (parent uf1) = length (parent uf)" and r1: "rank uf1 = rank uf"
    and n1: "num_sets uf1 = num_sets uf"
    and e1: "\<forall>c s. root_of (parent uf1) c s \<longleftrightarrow> root_of (parent uf) c s"
    by blast
  have x: "x = ru" using ux ur root_of_fun by blast
  have v1: "v < length (parent uf1)" using v l1 by simp
  from find_result[OF inv1 v1] obtain uf2 y where
    f2: "find uf1 (int v) = Inr (uf2, y)" and vy: "root_of (parent uf1) v y" and inv2: "uf_inv uf2"
    and l2: "length (parent uf2) = length (parent uf1)" and r2: "rank uf2 = rank uf1"
    and n2: "num_sets uf2 = num_sets uf1"
    and e2: "\<forall>c s. root_of (parent uf2) c s \<longleftrightarrow> root_of (parent uf1) c s"
    by blast
  have y: "y = rv" using vy vr e1 root_of_fun by blast
  have e: "\<forall>c s. root_of (parent uf2) c s \<longleftrightarrow> root_of (parent uf) c s" using e1 e2 by simp
  show ?thesis
  proof (cases "ru \<noteq> rv \<and> w \<le> min (thr ! ru) (thr ! rv)")
    case False
    then have "pass1_step F kf (uf, thr) (w, u, v) = Inr (uf2, thr)"
      using f1 f2 x y by (auto simp: pass1_step_def Let_def)
    then show ?thesis using False inv2 l1 l2 r1 r2 n1 n2 e by auto
  next
    case True
    let ?n = "length (parent uf2)"
    have ru: "ru < ?n" "root_of (parent uf2) ru ru"
      using root_of_is_root[OF ur] e l1 l2 by (auto intro: root_of.root)
    have rv: "rv < ?n" "root_of (parent uf2) rv rv"
      using root_of_is_root[OF vr] e l1 l2 by (auto intro: root_of.root)
    have res: "resolve ?n (int ru) = Some ru" "resolve ?n (int rv) = Some rv"
      using ru rv by simp_all
    from union_spec[OF inv2 res ru(2) rv(2)] True obtain uf3 z where
      un: "union uf2 (int ru) (int rv) = Inr (uf3, None)" and inv3: "uf_inv uf3"
      and l3: "length (parent uf3) = ?n" and n3: "num_sets uf3 = num_sets uf2 - 1"
      and z: "z = ru \<or> z = rv"
      and lk: "\<forall>c s. root_of (parent uf2) c s \<longrightarrow>
               root_of (parent uf3) c (if s = ru \<or> s = rv then z else s)"
      by auto
    have ru3: "ru < length (parent uf3)" using ru l3 by simp
    from find_result[OF inv3 ru3] obtain uf4 nr where
      f4: "find uf3 (int ru) = Inr (uf4, nr)" and rn: "root_of (parent uf3) ru nr"
      and inv4: "uf_inv uf4" and l4: "length (parent uf4) = length (parent uf3)"
      and n4: "num_sets uf4 = num_sets uf3"
      and e4: "\<forall>c s. root_of (parent uf4) c s \<longleftrightarrow> root_of (parent uf3) c s"
      by blast
    have "root_of (parent uf3) ru z" using lk ru(2) by fastforce
    then have nr: "nr = z" using rn root_of_fun by blast
    have st: "pass1_step F kf (uf, thr) (w, u, v) = Inr (uf4, thr[z := fadd F w kf])"
      using f1 f2 x y True un f4 nr by (simp add: pass1_step_def Let_def)
    have lk4: "\<forall>c s. root_of (parent uf) c s \<longrightarrow>
               root_of (parent uf4) c (if s = ru \<or> s = rv then z else s)"
      using lk e e4 by simp
    have P: "\<exists>z'. (z' = ru \<or> z' = rv) \<and> thr[z := fadd F w kf] = thr[z' := fadd F w kf] \<and>
            (\<forall>c s. root_of (parent uf) c s \<longrightarrow>
               root_of (parent uf4) c (if s = ru \<or> s = rv then z' else s))"
      using z lk4 by blast
    have len: "length (parent uf4) = length (parent uf)" using l1 l2 l3 l4 by simp
    have ns: "num_sets uf4 = num_sets uf - 1" using n1 n2 n3 n4 by simp
    show ?thesis
    proof (intro exI[of _ uf4] exI[of _ "thr[z := fadd F w kf]"] conjI impI)
      show "pass1_step F kf (uf, thr) (w, u, v) = Inr (uf4, thr[z := fadd F w kf])" by fact
      show "uf_inv uf4" by fact
      show "length (parent uf4) = length (parent uf)" by fact
      show "num_sets uf4 = num_sets uf - 1" by fact
      show "\<exists>z'. (z' = ru \<or> z' = rv) \<and> thr[z := fadd F w kf] = thr[z' := fadd F w kf] \<and>
            (\<forall>c s. root_of (parent uf) c s \<longrightarrow>
               root_of (parent uf4) c (if s = ru \<or> s = rv then z' else s))" by fact
    qed (use True in simp_all)
  qed
qed

lemma edges_below_Cons:
  "edges_below n ((w, u, v) # es) \<longleftrightarrow> u < n \<and> v < n \<and> edges_below n es"
  by (auto simp: edges_below_def)

lemma pass1_step_total:
  assumes inv: "uf_inv uf" and u: "u < length (parent uf)" and v: "v < length (parent uf)"
  shows "\<exists>uf' thr'. pass1_step F kf (uf, thr) (w, u, v) = Inr (uf', thr') \<and> uf_inv uf' \<and>
      length (parent uf') = length (parent uf) \<and> length thr' = length thr \<and>
      num_sets uf' \<le> num_sets uf"
proof -
  obtain ru rv where "root_of (parent uf) u ru" "root_of (parent uf) v rv"
    using ranked_total[of "rank uf" "parent uf"] inv u v by (auto simp: uf_inv_iff) blast
  from pass1_step_spec[OF inv u v this, of F kf thr w] obtain uf' thr' where
    st: "pass1_step F kf (uf, thr) (w, u, v) = Inr (uf', thr')" "uf_inv uf'"
      "length (parent uf') = length (parent uf)" "length thr' = length thr"
    and a: "ru = rv \<or> \<not> w \<le> min (thr ! ru) (thr ! rv) \<longrightarrow> num_sets uf' = num_sets uf"
    and b: "ru \<noteq> rv \<and> w \<le> min (thr ! ru) (thr ! rv) \<longrightarrow> num_sets uf' = num_sets uf - 1"
    by blast
  have "num_sets uf' \<le> num_sets uf" using a b by (cases "ru = rv \<or> \<not> w \<le> min (thr ! ru) (thr ! rv)") auto
  then show ?thesis using st by blast
qed

lemma pass1_total:
  "uf_inv uf \<Longrightarrow> edges_below (length (parent uf)) es \<Longrightarrow>
     \<exists>uf' thr'. pass1 F kf (uf, thr) es = Inr (uf', thr') \<and> uf_inv uf' \<and>
       length (parent uf') = length (parent uf) \<and> length thr' = length thr \<and>
       num_sets uf' \<le> num_sets uf"
proof (induction es arbitrary: uf thr)
  case Nil
  then show ?case by simp
next
  case (Cons e es)
  obtain w u v where e: "e = (w, u, v)" by (cases e)
  have uv: "u < length (parent uf)" "v < length (parent uf)" and rest: "edges_below (length (parent uf)) es"
    using Cons.prems(2) by (simp_all add: e edges_below_Cons)
  from pass1_step_total[OF Cons.prems(1) uv, of F kf thr w] obtain uf1 thr1 where
    st: "pass1_step F kf (uf, thr) (w, u, v) = Inr (uf1, thr1)" and inv1: "uf_inv uf1"
    and l1: "length (parent uf1) = length (parent uf)" and t1: "length thr1 = length thr"
    and n1: "num_sets uf1 \<le> num_sets uf"
    by blast
  from Cons.IH[OF inv1, of thr1] rest l1 obtain uf' thr' where
    "pass1 F kf (uf1, thr1) es = Inr (uf', thr')" "uf_inv uf'"
    "length (parent uf') = length (parent uf1)" "length thr' = length thr1"
    "num_sets uf' \<le> num_sets uf1"
    by auto
  then show ?case using st l1 t1 n1 by (auto simp: e)
qed

lemma pass1_snoc:
  "pass1 F kf s (es @ [e]) =
     (case pass1 F kf s es of Inl x \<Rightarrow> Inl x | Inr s' \<Rightarrow> pass1_step F kf s' e)"
  by (induction es arbitrary: s) (simp_all split: sum.splits)

lemma edges_below_append:
  "edges_below n (es @ fs) \<longleftrightarrow> edges_below n es \<and> edges_below n fs"
  by (auto simp: edges_below_def)

lemma py_float_cases:
  "py_float F k = Inl OverflowError \<or> (\<exists>kf. py_float F k = Inr kf)"
  by (simp add: py_float_def split: pynum.splits)

lemma py_float_overflow:
  "py_float F k = Inl OverflowError \<longleftrightarrow> (\<exists>i. k = PyInt i \<and> 2 ^ 1024 - 2 ^ 970 \<le> \<bar>i\<bar>)"
  by (simp add: py_float_def split: pynum.splits)

lemma pass2_step_total:
  assumes inv: "uf_inv uf" and u: "u < length (parent uf)" and v: "v < length (parent uf)"
  shows "\<exists>uf'. pass2_step ms uf (w, u, v) = Inr uf' \<and> uf_inv uf' \<and>
      length (parent uf') = length (parent uf) \<and> num_sets uf' \<le> num_sets uf"
proof -
  from find_result[OF inv u] obtain uf1 x where
    f1: "find uf (int u) = Inr (uf1, x)" and inv1: "uf_inv uf1"
    and l1: "length (parent uf1) = length (parent uf)" and n1: "num_sets uf1 = num_sets uf"
    and ux: "root_of (parent uf) u x"
    and e1: "\<forall>c s. root_of (parent uf1) c s \<longleftrightarrow> root_of (parent uf) c s"
    by blast
  have v1: "v < length (parent uf1)" using v l1 by simp
  from find_result[OF inv1 v1] obtain uf2 y where
    f2: "find uf1 (int v) = Inr (uf2, y)" and inv2: "uf_inv uf2"
    and l2: "length (parent uf2) = length (parent uf1)" and n2: "num_sets uf2 = num_sets uf1"
    and vy: "root_of (parent uf1) v y"
    and e2: "\<forall>c s. root_of (parent uf2) c s \<longleftrightarrow> root_of (parent uf1) c s"
    by blast
  let ?n = "length (parent uf2)"
  have x: "x < ?n" "root_of (parent uf2) x x"
    using root_of_is_root[OF ux] e1 e2 l1 l2 by (auto intro: root_of.root)
  have y: "y < ?n" "root_of (parent uf2) y y"
    using root_of_is_root[OF vy] e2 l2 by (auto intro: root_of.root)
  have res: "resolve ?n (int x) = Some x" "resolve ?n (int y) = Some y" using x y by simp_all
  from union_spec[OF inv2 res x(2) y(2)] obtain uf3 where
    un: "union uf2 (int x) (int y) = Inr (uf3, None)" and inv3: "uf_inv uf3"
    and l3: "length (parent uf3) = ?n"
    and n3: "x \<noteq> y \<longrightarrow> num_sets uf3 = num_sets uf2 - 1"
    by blast
  show ?thesis
  proof (cases "x \<noteq> y \<and> (int (count_list (parent uf2) x) < ms \<or> int (count_list (parent uf2) y) < ms)")
    case True
    then have "pass2_step ms uf (w, u, v) = Inr uf3"
      using f1 f2 un by (auto simp: pass2_step_def Let_def)
    then show ?thesis using inv3 l1 l2 l3 n1 n2 n3 True by auto
  next
    case False
    then have "pass2_step ms uf (w, u, v) = Inr uf2"
      using f1 f2 by (auto simp: pass2_step_def Let_def)
    then show ?thesis using inv2 l1 l2 n1 n2 by auto
  qed
qed

lemma pass2_total:
  "uf_inv uf \<Longrightarrow> edges_below (length (parent uf)) es \<Longrightarrow>
     \<exists>uf'. pass2 ms uf es = Inr uf' \<and> uf_inv uf' \<and>
       length (parent uf') = length (parent uf) \<and> num_sets uf' \<le> num_sets uf"
proof (induction es arbitrary: uf)
  case Nil
  then show ?case by simp
next
  case (Cons e es)
  obtain w u v where e: "e = (w, u, v)" by (cases e)
  have uv: "u < length (parent uf)" "v < length (parent uf)" and rest: "edges_below (length (parent uf)) es"
    using Cons.prems(2) by (simp_all add: e edges_below_Cons)
  from pass2_step_total[OF Cons.prems(1) uv, of ms w] obtain uf1 where
    st: "pass2_step ms uf (w, u, v) = Inr uf1" and inv1: "uf_inv uf1"
    and l1: "length (parent uf1) = length (parent uf)" and n1: "num_sets uf1 \<le> num_sets uf"
    by blast
  from Cons.IH[OF inv1] rest l1 obtain uf' where
    "pass2 ms uf1 es = Inr uf'" "uf_inv uf'"
    "length (parent uf') = length (parent uf1)" "num_sets uf' \<le> num_sets uf1"
    by auto
  then show ?case using st l1 n1 by (auto simp: e)
qed

lemma raster_index: "y < h \<Longrightarrow> x < w \<Longrightarrow> y * w + x < h * (w::nat)"
proof -
  assume y: "y < h" and x: "x < w"
  have "y * w + x < y * w + w" using x by simp
  also have "\<dots> = Suc y * w" by simp
  also have "\<dots> \<le> h * w" using y by (intro mult_le_mono1) simp
  finally show ?thesis .
qed

lemma pixel_edges_below:
  assumes "y < height img" "x < width img"
  shows "edges_below (height img * width img) (pixel_edges F np2 img y x)"
proof -
  have 0: "y * width img + x < height img * width img" using assms by (rule raster_index)
  have 1: "y * width img + (x + 1) < height img * width img" if "x < width img - 1"
    using raster_index[of y "height img" "x + 1" "width img"] assms that by simp
  have 2: "(y + 1) * width img + x < height img * width img" if "y < height img - 1"
    using raster_index[of "y + 1" "height img" x "width img"] assms that by simp
  show ?thesis using 0 1 2 by (auto simp: pixel_edges_def edges_below_def Let_def)
qed

lemma create_graph_below: "edges_below (height img * width img) (create_graph F np2 img)"
  using pixel_edges_below[of _ img _ F np2]
  by (auto simp: create_graph_def edges_below_def)

lemma create_graph_sorted: "sorted (create_graph F np2 img)"
  by (simp add: create_graph_def)

lemma create_graph_sorted_weights: "sorted (map fst (create_graph F np2 img))"
proof -
  have "sorted (map fst xs)" if "sorted xs" for xs :: "edge list"
    using that by (induction xs) (auto simp: less_eq_prod_def)
  then show ?thesis using create_graph_sorted by blast
qed

lemma merge_passes_total:
  assumes "height img * width img = n" and kf: "py_float F k = Inr kf"
  shows "\<exists>uf. merge_passes F np2 img n k ms = Inr uf \<and> uf_inv uf \<and> length (parent uf) = n \<and>
           num_sets uf \<le> int n"
proof -
  have eb: "edges_below (length (parent (uf_init n))) (create_graph F np2 img)"
    using create_graph_below[of img F np2] assms(1) by simp
  from pass1_total[OF uf_inv_init eb, of F kf "replicate n kf"] obtain uf1 thr1 where
    p1: "pass1 F kf (uf_init n, replicate n kf) (create_graph F np2 img) = Inr (uf1, thr1)"
    and inv1: "uf_inv uf1" and l1: "length (parent uf1) = n" and n1: "num_sets uf1 \<le> int n"
    by (auto simp: uf_init_def)
  have eb1: "edges_below (length (parent uf1)) (create_graph F np2 img)" using eb l1 by simp
  from pass2_total[OF inv1 eb1, of ms] obtain uf2 where
    p2: "pass2 ms uf1 (create_graph F np2 img) = Inr uf2" and inv2: "uf_inv uf2"
    and l2: "length (parent uf2) = n" and n2: "num_sets uf2 \<le> num_sets uf1"
    using l1 by auto
  show ?thesis
  proof (cases "ms > 0")
    case True
    then have "merge_passes F np2 img n k ms = Inr uf2" using p1 p2 kf by (simp add: merge_passes_def)
    then show ?thesis using inv2 l2 n1 n2 by auto
  next
    case False
    then have "merge_passes F np2 img n k ms = Inr uf1" using p1 kf by (simp add: merge_passes_def)
    then show ?thesis using inv1 l1 n1 by auto
  qed
qed

lemma store_pixel_ok:
  "col_fits (channels a) (col_kind col) \<Longrightarrow>
     \<exists>a'. store_pixel a y x col = Inr a' \<and> channels a' = channels a \<and> width a' = width a \<and>
          height a' = height a"
  by (cases col; cases "channels a") (auto simp: store_pixel_def col_fits_def Let_def)

lemma store_pixel_err:
  "\<not> col_fits (channels a) (col_kind col) \<Longrightarrow> store_pixel a y x col = Inl ValueError"
  by (cases col; cases "channels a") (auto simp: store_pixel_def col_fits_def Let_def)

lemma paint_step_rel:
  assumes "paint_agree seg s t"
  shows "rel_sum (=) (paint_agree seg) (paint_step L1 ic w seg s yx) (paint_step L2 ic w seg t yx)"
proof -
  obtain uf cc d h where s: "s = (uf, cc, d, h)" by (cases s)
  obtain cc' d' h' where t: "t = (uf, cc', d', h')" using assms s by (cases t) (auto simp: paint_agree_def)
  obtain y x where yx: "yx = (y, x)" by (cases yx)
  have k: "\<forall>r. map_option col_kind (cc r) = map_option col_kind (cc' r)"
    and sg: "seg < length h" "seg < length h'" and ch: "channels (h ! seg) = channels (h' ! seg)"
    using assms by (auto simp: paint_agree_def s t)
  show ?thesis
  proof (cases "find uf (int (y * w + x))")
    case (Inl e)
    then show ?thesis by (simp add: paint_step_def s t yx)
  next
    case (Inr p)
    obtain uf1 rt where p: "p = (uf1, rt)" by (cases p)
    define pick where "pick = (\<lambda>(L::libs) (cc::nat \<rightharpoonup> color) (d::nat).
               (case cc rt of
                  Some c \<Rightarrow> (c, cc, d)
                | None \<Rightarrow>
                    if ic then
                      (let c = Triple (map (\<lambda>i. randint L (d + i) mod 255) [0..<3])
                       in (c, cc(rt \<mapsto> c), d + 3))
                    else
                      (let c = Scalar (randint L d mod 255)
                       in (c, cc(rt \<mapsto> c), d + 1))))"
    obtain c1 cc1 d1 where p1: "pick L1 cc d = (c1, cc1, d1)" by (cases "pick L1 cc d")
    obtain c2 cc2 d2 where p2: "pick L2 cc' d' = (c2, cc2, d2)" by (cases "pick L2 cc' d'")
    have kk: "map_option col_kind (cc rt) = map_option col_kind (cc' rt)" using k by simp
    have same: "col_kind c1 = col_kind c2 \<and> (\<forall>r. map_option col_kind (cc1 r) = map_option col_kind (cc2 r))"
    proof (cases "cc rt")
      case None
      then have "cc' rt = None" using kk by simp
      then show ?thesis using None p1 p2 k by (auto simp: pick_def Let_def split: if_splits)
    next
      case (Some c)
      then obtain c' where c': "cc' rt = Some c'" using kk by (cases "cc' rt") auto
      then have "col_kind c = col_kind c'" using kk Some by simp
      then show ?thesis using Some c' p1 p2 k by (auto simp: pick_def)
    qed
    have st1: "paint_step L1 ic w seg s yx =
        (case store_pixel (h ! seg) y x c1 of Inl e \<Rightarrow> Inl e | Inr a \<Rightarrow> Inr (uf1, cc1, d1, h[seg := a]))"
      using Inr p p1 by (simp add: paint_step_def s yx pick_def)
    have st2: "paint_step L2 ic w seg t yx =
        (case store_pixel (h' ! seg) y x c2 of Inl e \<Rightarrow> Inl e | Inr a \<Rightarrow> Inr (uf1, cc2, d2, h'[seg := a]))"
      using Inr p p2 by (simp add: paint_step_def t yx pick_def)
    show ?thesis
    proof (cases "col_fits (channels (h ! seg)) (col_kind c1)")
      case True
      from store_pixel_ok[OF True, of y x] obtain a1 where
        a1: "store_pixel (h ! seg) y x c1 = Inr a1" "channels a1 = channels (h ! seg)" by blast
      have "col_fits (channels (h' ! seg)) (col_kind c2)" using True same ch by simp
      from store_pixel_ok[OF this, of y x] obtain a2 where
        a2: "store_pixel (h' ! seg) y x c2 = Inr a2" "channels a2 = channels (h' ! seg)" by blast
      show ?thesis using a1 a2 same sg ch by (simp add: st1 st2 paint_agree_def)
    next
      case False
      then have "\<not> col_fits (channels (h' ! seg)) (col_kind c2)" using same ch by simp
      then show ?thesis using False by (simp add: st1 st2 store_pixel_err)
    qed
  qed
qed

lemma paint_related:
  "paint_agree seg s t \<Longrightarrow>
     rel_sum (=) (paint_agree seg) (paint L1 ic w seg s yxs) (paint L2 ic w seg t yxs)"
proof (induction yxs arbitrary: s t)
  case Nil
  then show ?case by simp
next
  case (Cons yx yxs)
  from paint_step_rel[OF Cons.prems, of L1 ic w yx L2] show ?case
    by (cases "paint_step L1 ic w seg s yx"; cases "paint_step L2 ic w seg t yx")
      (auto intro: Cons.IH)
qed

lemma paint_step_heap:
  assumes "paint_step L ic w seg (uf, cc, d, hp) yx = Inr (uf', cc', d', hp')"
  shows "length hp' = length hp \<and> (\<forall>b. b \<noteq> seg \<longrightarrow> hp' ! b = hp ! b)"
  using assms
  by (cases yx) (auto simp: paint_step_def Let_def split: sum.splits prod.splits option.splits if_splits)

lemma paint_heap:
  "paint L ic w seg s yxs = Inr s' \<Longrightarrow>
     length (snd (snd (snd s'))) = length (snd (snd (snd s))) \<and>
     (\<forall>b. b \<noteq> seg \<longrightarrow> snd (snd (snd s')) ! b = snd (snd (snd s)) ! b)"
proof (induction yxs arbitrary: s)
  case Nil
  then show ?case by simp
next
  case (Cons yx yxs)
  from Cons.prems obtain s1 where st: "paint_step L ic w seg s yx = Inr s1"
    and rest: "paint L ic w seg s1 yxs = Inr s'"
    by (auto split: sum.splits)
  obtain uf cc d hp where s: "s = (uf, cc, d, hp)" by (cases s)
  obtain uf1 cc1 d1 hp1 where s1: "s1 = (uf1, cc1, d1, hp1)" by (cases s1)
  from paint_step_heap[OF st[unfolded s s1]] Cons.IH[OF rest] show ?case by (simp add: s s1)
qed

lemma paint_step_total:
  assumes inv: "uf_inv uf" and idx: "y * w + x < length (parent uf)"
    and seg: "seg < length hp" and fit: "\<not> ic \<or> channels (hp ! seg) = Some 3"
    and cck: "cc_kind ic cc"
  shows "\<exists>uf' cc' d' hp'. paint_step L ic w seg (uf, cc, d, hp) (y, x) = Inr (uf', cc', d', hp') \<and>
      uf_inv uf' \<and> num_sets uf' = num_sets uf \<and> length (parent uf') = length (parent uf) \<and>
      length hp' = length hp \<and> channels (hp' ! seg) = channels (hp ! seg) \<and> cc_kind ic cc'"
proof -
  from find_result[OF inv idx] obtain uf1 rt where
    f: "find uf (int (y * w + x)) = Inr (uf1, rt)" and inv1: "uf_inv uf1"
    and l1: "length (parent uf1) = length (parent uf)" and n1: "num_sets uf1 = num_sets uf"
    by blast
  define pick where "pick =
               (case cc rt of
                  Some c \<Rightarrow> (c, cc, d)
                | None \<Rightarrow>
                    if ic then
                      (let c = Triple (map (\<lambda>i. randint L (d + i) mod 255) [0..<3])
                       in (c, cc(rt \<mapsto> c), d + 3))
                    else
                      (let c = Scalar (randint L d mod 255)
                       in (c, cc(rt \<mapsto> c), d + 1)))"
  obtain c1 cc1 d1 where p1: "pick = (c1, cc1, d1)" by (cases pick)
  have k: "col_kind c1 = (if ic then Some 3 else None) \<and> cc_kind ic cc1"
    using p1 cck by (cases "cc rt") (auto simp: pick_def cc_kind_def Let_def split: if_splits)
  then have "col_fits (channels (hp ! seg)) (col_kind c1)" using fit by (auto simp: col_fits_def)
  from store_pixel_ok[OF this, of y x] obtain a1 where
    a1: "store_pixel (hp ! seg) y x c1 = Inr a1" "channels a1 = channels (hp ! seg)" by blast
  have "paint_step L ic w seg (uf, cc, d, hp) (y, x) = Inr (uf1, cc1, d1, hp[seg := a1])"
    using f p1 a1 by (simp add: paint_step_def pick_def)
  then show ?thesis using inv1 l1 n1 a1 k seg by simp
qed

lemma paint_total:
  "uf_inv uf \<Longrightarrow> \<forall>(y, x)\<in>set yxs. y * w + x < length (parent uf) \<Longrightarrow> seg < length hp \<Longrightarrow>
     \<not> ic \<or> channels (hp ! seg) = Some 3 \<Longrightarrow> cc_kind ic cc \<Longrightarrow>
     \<exists>uf' cc' d' hp'. paint L ic w seg (uf, cc, d, hp) yxs = Inr (uf', cc', d', hp') \<and>
       uf_inv uf' \<and> num_sets uf' = num_sets uf \<and> length (parent uf') = length (parent uf)"
proof (induction yxs arbitrary: uf cc d hp)
  case Nil
  then show ?case by simp
next
  case (Cons yx yxs)
  obtain y x where yx: "yx = (y, x)" by (cases yx)
  have idx: "y * w + x < length (parent uf)" using Cons.prems(2) by (simp add: yx)
  from paint_step_total[OF Cons.prems(1) idx Cons.prems(3,4,5), of L d] obtain uf1 cc1 d1 hp1 where
    st: "paint_step L ic w seg (uf, cc, d, hp) (y, x) = Inr (uf1, cc1, d1, hp1)"
    and inv1: "uf_inv uf1" and n1: "num_sets uf1 = num_sets uf"
    and l1: "length (parent uf1) = length (parent uf)"
    and h1: "length hp1 = length hp" "channels (hp1 ! seg) = channels (hp ! seg)"
    and k1: "cc_kind ic cc1"
    by blast
  have "\<forall>(y, x)\<in>set yxs. y * w + x < length (parent uf1)" using Cons.prems(2) l1 by simp
  moreover have "seg < length hp1" "\<not> ic \<or> channels (hp1 ! seg) = Some 3"
    using Cons.prems(3,4) h1 by simp_all
  ultimately obtain uf' cc' d' hp' where
    "paint L ic w seg (uf1, cc1, d1, hp1) yxs = Inr (uf', cc', d', hp')" "uf_inv uf'"
    "num_sets uf' = num_sets uf1" "length (parent uf') = length (parent uf1)"
    using Cons.IH[OF inv1 _ _ _ k1, of hp1 d1] by blast
  then show ?case using st n1 l1 by (simp add: yx)
qed

lemma paint_value_error:
  assumes inv: "uf_inv uf" and idx: "y * w + x < length (parent uf)"
    and ch: "channels (hp ! seg) = Some c" "c \<noteq> 3"
  shows "paint L True w seg (uf, Map.empty, d, hp) ((y, x) # yxs) = Inl ValueError"
proof -
  from find_result[OF inv idx] obtain uf1 rt where
    f: "find uf (int (y * w + x)) = Inr (uf1, rt)" by blast
  have "store_pixel (hp ! seg) y x (Triple (map (\<lambda>i. randint L (d + i) mod 255) [0..<3])) =
      Inl ValueError"
    using ch by (intro store_pixel_err) (simp add: col_fits_def)
  then show ?thesis using f by (simp add: paint_step_def Let_def)
qed

lemma raster_below: "\<forall>(y, x)\<in>set (raster h w). y * w + x < h * w"
  by (auto simp: raster_def raster_index)

lemma raster_empty: "h * w = 0 \<Longrightarrow> raster h w = []"
  by (auto simp: raster_def)

lemma raster_nonempty: "0 < h * w \<Longrightarrow> \<exists>yxs. raster h w = (0, 0) # yxs"
proof -
  assume "0 < h * w"
  then obtain h' w' where "h = Suc h'" "w = Suc w'" by (cases h; cases w) auto
  then show ?thesis by (simp add: raster_def upt_rec[of 0])
qed

lemma felz_unfold:
  "felzenszwalb_huttenlocher F L h a k ms sigma =
     (case merge_passes F (nep50 L) (smoothed L (h ! a) sigma) (height (h ! a) * width (h ! a)) k ms of
        Inl e \<Rightarrow> Inl e
      | Inr uf \<Rightarrow>
          (case paint L (channels (h ! a) \<noteq> None) (width (h ! a)) (Suc (length h))
                  (uf, Map.empty, 0, h @ [smoothed L (h ! a) sigma, zeros_like (h ! a)])
                  (raster (height (h ! a)) (width (h ! a))) of
             Inl e \<Rightarrow> Inl e
           | Inr (uf', cc, d, h3) \<Rightarrow> Inr (h3, Suc (length h), num_sets uf', uf')))"
  by (simp add: felzenszwalb_huttenlocher_def smoothed_def alloc_def Let_def nth_append
      split: sum.splits)

lemma zeros_like_shape [simp]:
  "channels (zeros_like a) = channels a" "width (zeros_like a) = width a"
  "height (zeros_like a) = height a"
  by (simp_all add: zeros_like_def)

section \<open>Claims about the forest\<close>

text \<open>
  Claim C6. Take a forest made by \<^verbatim>\<open>UnionFind(n)\<close> and any sequence of \<^verbatim>\<open>union\<close>
  calls whose arguments are pixel indices in \<open>[0, n)\<close>. Every call succeeds, and in
  the resulting forest, for every pixel index \<open>i\<close>: \<^verbatim>\<open>find(find(i)) == find(i)\<close>,
  evaluated as Python does (the inner \<^verbatim>\<open>find(i)\<close>, then \<^verbatim>\<open>find\<close> of its result,
  then \<^verbatim>\<open>find(i)\<close> again, each on the array the previous call left). Also
  \<^verbatim>\<open>num_sets\<close> is the number of distinct values of \<^verbatim>\<open>find\<close> over all indices,
  both when each \<^verbatim>\<open>find(i)\<close> starts from the same forest and when the calls run one
  after another as in \<^verbatim>\<open>[self.find(i) for i in range(n)]\<close>.
\<close>

theorem partition_invariant:
  assumes "\<forall>(i, j)\<in>set ops. 0 \<le> i \<and> i < int n \<and> 0 \<le> j \<and> j < int n"
  shows "\<exists>u. unions (uf_init n) ops = Inr u \<and>
           (\<forall>i<n. \<exists>u1 u2 u3 r. find u (int i) = Inr (u1, r) \<and> find u1 (int r) = Inr (u2, r) \<and>
                     find u2 (int i) = Inr (u3, r)) \<and>
           num_sets u = int (card {r. \<exists>i<n. \<exists>u'. find u (int i) = Inr (u', r)}) \<and>
           (\<exists>u' rs. find_all u [0..<n] = Inr (u', rs) \<and> num_sets u = int (card (set rs)))"
proof -
  from unions_total[OF uf_inv_init, of ops n] assms obtain u where
    u: "unions (uf_init n) ops = Inr u" by auto
  from unions_inv[OF uf_inv_init u] have inv: "uf_inv u" and len: "length (parent u) = n"
    by simp_all
  have ns: "num_sets u = int (card (roots (parent u)))" using inv by (simp add: uf_inv_iff)
  have idem: "\<exists>u1 u2 u3 r. find u (int i) = Inr (u1, r) \<and> find u1 (int r) = Inr (u2, r) \<and>
                     find u2 (int i) = Inr (u3, r)" if "i < n" for i
  proof -
    from find_result[OF inv, of i] that len obtain u1 r where
      f1: "find u (int i) = Inr (u1, r)" and ir: "root_of (parent u) i r" and inv1: "uf_inv u1"
      and l1: "length (parent u1) = length (parent u)"
      and e1: "\<forall>b s. root_of (parent u1) b s \<longleftrightarrow> root_of (parent u) b s"
      by auto
    have "root_of (parent u1) i r" using ir e1 by simp
    then have r: "r < length (parent u1)" "parent u1 ! r = r"
      using root_of_is_root by blast+
    then have f2: "find u1 (int r) = Inr (u1, r)" by (rule find_at_root)
    from find_result[OF inv1, of i] that len l1 obtain u3 r' where
      f3: "find u1 (int i) = Inr (u3, r')" and "root_of (parent u1) i r'" by auto
    then have "r' = r" using \<open>root_of (parent u1) i r\<close> root_of_fun by blast
    then show ?thesis using f1 f2 f3 by blast
  qed
  have vals: "{r. \<exists>i<n. \<exists>u'. find u (int i) = Inr (u', r)} = roots (parent u)"
    using find_values[OF inv] len by simp
  from find_all_spec[OF inv, of "[0..<n]"] len obtain u' rs where
    fa: "find_all u [0..<n] = Inr (u', rs)" by auto
  then have "set rs = roots (parent u)" using find_all_roots[OF inv, of u' rs] len by simp
  then show ?thesis using u idem vals fa ns by auto
qed

text \<open>
  Claim C6, witness: the forest of three pixels after \<^verbatim>\<open>union(0, 1)\<close> and
  \<^verbatim>\<open>union(2, 1)\<close>.
\<close>

theorem partition_invariant_witness:
  "\<exists>u. unions (uf_init 3) [(0, 1), (2, 1)] = Inr u \<and>
     (\<forall>i<3. \<exists>u1 u2 u3 r. find u (int i) = Inr (u1, r) \<and> find u1 (int r) = Inr (u2, r) \<and>
               find u2 (int i) = Inr (u3, r)) \<and>
     num_sets u = int (card {r. \<exists>i<3. \<exists>u'. find u (int i) = Inr (u', r)}) \<and>
     (\<exists>u' rs. find_all u [0..<3] = Inr (u', rs) \<and> num_sets u = int (card (set rs)))"
proof -
  have h: "\<forall>(i, j)\<in>set [(0::int, 1::int), (2, 1)]. 0 \<le> i \<and> i < int 3 \<and> 0 \<le> j \<and> j < int 3"
    by simp
  show ?thesis using partition_invariant[OF h] by blast
qed

text \<open>
  Claim C5, counterexample. The claim says that \<^verbatim>\<open>union\<close> returns the new root or
  signals that no merge occurred. On two singleton sets, \<^verbatim>\<open>union(0, 1)\<close> merges
  (\<^verbatim>\<open>num_sets\<close> goes from 2 to 1, the new root is 0) and \<^verbatim>\<open>union(0, 0)\<close> merges
  nothing, and both calls return \<^verbatim>\<open>None\<close>: the value is not the new root and does
  not tell the two cases apart.
\<close>

theorem union_returns_none_counterexample:
  "union (uf_init 2) 0 1 = Inr (\<lparr>parent = [0, 0], rank = [1, 0], num_sets = 1\<rparr>, None) \<and>
   union (uf_init 2) 0 0 = Inr (\<lparr>parent = [0, 1], rank = [0, 0], num_sets = 2\<rparr>, None)"
  by code_simp

text \<open>
  Claim C5, as amended. In a forest made by \<^verbatim>\<open>UnionFind(n)\<close> and a sequence of
  successful \<^verbatim>\<open>union\<close> calls, for every pair of pixel indices \<open>i\<close>, \<open>j\<close> in
  \<open>[0, n)\<close>: \<^verbatim>\<open>union(i, j)\<close> succeeds and returns \<^verbatim>\<open>None\<close>; it leaves
  \<^verbatim>\<open>num_sets\<close> unchanged when \<^verbatim>\<open>find(i)\<close> and \<^verbatim>\<open>find(j)\<close> agree on the forest
  before the call, and decrements it by exactly 1 when they differ.
\<close>

theorem union_num_sets:
  assumes "unions (uf_init n) ops = Inr u" and "0 \<le> i" "i < int n" "0 \<le> j" "j < int n"
  shows "\<exists>u1 ri u2 rj u'. find u i = Inr (u1, ri) \<and> find u j = Inr (u2, rj) \<and>
           union u i j = Inr (u', None) \<and>
           num_sets u' = (if ri = rj then num_sets u else num_sets u - 1)"
proof -
  from unions_inv[OF uf_inv_init assms(1)] have inv: "uf_inv u" and len: "length (parent u) = n"
    by simp_all
  have r: "resolve (length (parent u)) i = Some (nat i)" "resolve (length (parent u)) j = Some (nat j)"
    using assms len by (auto simp: resolve_def)
  from find_spec[OF inv r(1)] obtain u1 ri where
    f1: "find u i = Inr (u1, ri)" and a: "root_of (parent u) (nat i) ri" by blast
  from find_spec[OF inv r(2)] obtain u2 rj where
    f2: "find u j = Inr (u2, rj)" and b: "root_of (parent u) (nat j) rj" by blast
  from union_spec[OF inv r a b] obtain u' where
    "union u i j = Inr (u', None)"
    "ri = rj \<longrightarrow> num_sets u' = num_sets u" "ri \<noteq> rj \<longrightarrow> num_sets u' = num_sets u - 1"
    by blast
  then show ?thesis using f1 f2 by auto
qed

text \<open>
  Claim C5, witness: three pixels after \<^verbatim>\<open>union(0, 1)\<close>; then \<^verbatim>\<open>union(1, 2)\<close>
  (different sets) and \<^verbatim>\<open>union(0, 1)\<close> (the same set).
\<close>

theorem union_num_sets_witness:
  "unions (uf_init 3) [(0, 1)] = Inr \<lparr>parent = [0, 0, 2], rank = [1, 0, 0], num_sets = 2\<rparr> \<and>
   (\<exists>u1 ri u2 rj u'. find \<lparr>parent = [0, 0, 2], rank = [1, 0, 0], num_sets = 2\<rparr> 1 = Inr (u1, ri) \<and>
      find \<lparr>parent = [0, 0, 2], rank = [1, 0, 0], num_sets = 2\<rparr> 2 = Inr (u2, rj) \<and>
      union \<lparr>parent = [0, 0, 2], rank = [1, 0, 0], num_sets = 2\<rparr> 1 2 = Inr (u', None) \<and>
      num_sets u' =
        (if ri = rj then num_sets \<lparr>parent = [0, 0, 2], rank = [1, 0, 0], num_sets = 2\<rparr>
         else num_sets \<lparr>parent = [0, 0, 2], rank = [1, 0, 0], num_sets = 2\<rparr> - 1)) \<and>
   (\<exists>u1 ri u2 rj u'. find \<lparr>parent = [0, 0, 2], rank = [1, 0, 0], num_sets = 2\<rparr> 0 = Inr (u1, ri) \<and>
      find \<lparr>parent = [0, 0, 2], rank = [1, 0, 0], num_sets = 2\<rparr> 1 = Inr (u2, rj) \<and>
      union \<lparr>parent = [0, 0, 2], rank = [1, 0, 0], num_sets = 2\<rparr> 0 1 = Inr (u', None) \<and>
      num_sets u' =
        (if ri = rj then num_sets \<lparr>parent = [0, 0, 2], rank = [1, 0, 0], num_sets = 2\<rparr>
         else num_sets \<lparr>parent = [0, 0, 2], rank = [1, 0, 0], num_sets = 2\<rparr> - 1))"
proof (intro conjI)
  show h: "unions (uf_init 3) [(0, 1)] = Inr \<lparr>parent = [0, 0, 2], rank = [1, 0, 0], num_sets = 2\<rparr>"
    by code_simp
  show "\<exists>u1 ri u2 rj u'. find \<lparr>parent = [0, 0, 2], rank = [1, 0, 0], num_sets = 2\<rparr> 1 = Inr (u1, ri) \<and>
      find \<lparr>parent = [0, 0, 2], rank = [1, 0, 0], num_sets = 2\<rparr> 2 = Inr (u2, rj) \<and>
      union \<lparr>parent = [0, 0, 2], rank = [1, 0, 0], num_sets = 2\<rparr> 1 2 = Inr (u', None) \<and>
      num_sets u' =
        (if ri = rj then num_sets \<lparr>parent = [0, 0, 2], rank = [1, 0, 0], num_sets = 2\<rparr>
         else num_sets \<lparr>parent = [0, 0, 2], rank = [1, 0, 0], num_sets = 2\<rparr> - 1)"
    by (rule union_num_sets[OF h]) simp_all
  show "\<exists>u1 ri u2 rj u'. find \<lparr>parent = [0, 0, 2], rank = [1, 0, 0], num_sets = 2\<rparr> 0 = Inr (u1, ri) \<and>
      find \<lparr>parent = [0, 0, 2], rank = [1, 0, 0], num_sets = 2\<rparr> 1 = Inr (u2, rj) \<and>
      union \<lparr>parent = [0, 0, 2], rank = [1, 0, 0], num_sets = 2\<rparr> 0 1 = Inr (u', None) \<and>
      num_sets u' =
        (if ri = rj then num_sets \<lparr>parent = [0, 0, 2], rank = [1, 0, 0], num_sets = 2\<rparr>
         else num_sets \<lparr>parent = [0, 0, 2], rank = [1, 0, 0], num_sets = 2\<rparr> - 1)"
    by (rule union_num_sets[OF h]) simp_all
qed

text \<open>
  Claim C7, counterexample. The claim says that \<^verbatim>\<open>find(i)\<close> raises IndexError
  exactly when \<open>i\<close> is not in \<open>[0, size)\<close>. NumPy resolves a negative index from the
  end of the array: on three singleton sets \<^verbatim>\<open>find(-1)\<close> raises nothing and returns 2.
\<close>

theorem find_negative_index_counterexample:
  "\<not> (0 \<le> (- 1 :: int) \<and> (- 1 :: int) < int 3) \<and>
   find (uf_init 3) (- 1) = Inr (\<lparr>parent = [0, 1, 2], rank = [0, 0, 0], num_sets = 3\<rparr>, 2)"
  by code_simp

text \<open>
  Claim C7, as amended. In a forest made by \<^verbatim>\<open>UnionFind(n)\<close> and a sequence of
  successful \<^verbatim>\<open>union\<close> calls, \<^verbatim>\<open>find(i)\<close> raises IndexError exactly when
  \<open>i < -n\<close> or \<open>i \<ge> n\<close>. For \<open>0 \<le> i < n\<close> it succeeds and returns the root of
  \<open>i\<close>; for \<open>-n \<le> i < 0\<close> it succeeds and returns the root of \<open>i + n\<close>.
\<close>

theorem find_index_error_iff:
  assumes "unions (uf_init n) ops = Inr u"
  shows "(find u i = Inl IndexError \<longleftrightarrow> i < - int n \<or> int n \<le> i) \<and>
         (0 \<le> i \<and> i < int n \<longrightarrow> (\<exists>u' r. find u i = Inr (u', r) \<and> root_of (parent u) (nat i) r)) \<and>
         (- int n \<le> i \<and> i < 0 \<longrightarrow>
            (\<exists>u' r. find u i = Inr (u', r) \<and> root_of (parent u) (nat (i + int n)) r))"
proof -
  from unions_inv[OF uf_inv_init assms(1)] have inv: "uf_inv u" and len: "length (parent u) = n"
    by simp_all
  have 1: "find u i = Inl IndexError \<longleftrightarrow> i < - int n \<or> int n \<le> i"
  proof (cases "resolve n i")
    case None
    then show ?thesis using find_IndexError[of u i] len resolve_None[of n i] by simp
  next
    case (Some a)
    then have "\<not> (i < - int n \<or> int n \<le> i)" using resolve_None[of n i] by simp
    moreover have "find u i \<noteq> Inl IndexError" using find_not_IndexError[OF inv, of i a] Some len by simp
    ultimately show ?thesis by simp
  qed
  have 2: "\<exists>u' r. find u i = Inr (u', r) \<and> root_of (parent u) (nat i) r" if "0 \<le> i" "i < int n"
  proof -
    have "resolve (length (parent u)) i = Some (nat i)" using that len by (simp add: resolve_def)
    from find_spec[OF inv this] show ?thesis by blast
  qed
  have 3: "\<exists>u' r. find u i = Inr (u', r) \<and> root_of (parent u) (nat (i + int n)) r"
    if "- int n \<le> i" "i < 0"
  proof -
    have "resolve (length (parent u)) i = Some (nat (i + int n))"
      using that len by (simp add: resolve_def)
    from find_spec[OF inv this] show ?thesis by blast
  qed
  show ?thesis using 1 2 3 by blast
qed

text \<open>
  Claim C7, witness: three pixels after \<^verbatim>\<open>union(0, 1)\<close>; \<^verbatim>\<open>find(3)\<close> raises
  IndexError, \<^verbatim>\<open>find(1)\<close> returns the root of 1 and \<^verbatim>\<open>find(-2)\<close> returns the root
  of 1 as well.
\<close>

theorem find_index_error_iff_witness:
  "unions (uf_init 3) [(0, 1)] = Inr \<lparr>parent = [0, 0, 2], rank = [1, 0, 0], num_sets = 2\<rparr> \<and>
   find \<lparr>parent = [0, 0, 2], rank = [1, 0, 0], num_sets = 2\<rparr> 3 = Inl IndexError \<and>
   (\<exists>u' r. find \<lparr>parent = [0, 0, 2], rank = [1, 0, 0], num_sets = 2\<rparr> 1 = Inr (u', r) \<and>
      root_of (parent \<lparr>parent = [0, 0, 2], rank = [1, 0, 0], num_sets = 2\<rparr>) (nat 1) r) \<and>
   (\<exists>u' r. find \<lparr>parent = [0, 0, 2], rank = [1, 0, 0], num_sets = 2\<rparr> (- 2) = Inr (u', r) \<and>
      root_of (parent \<lparr>parent = [0, 0, 2], rank = [1, 0, 0], num_sets = 2\<rparr>) (nat (- 2 + int 3)) r)"
proof (intro conjI)
  show h: "unions (uf_init 3) [(0, 1)] = Inr \<lparr>parent = [0, 0, 2], rank = [1, 0, 0], num_sets = 2\<rparr>"
    by code_simp
  show "find \<lparr>parent = [0, 0, 2], rank = [1, 0, 0], num_sets = 2\<rparr> 3 = Inl IndexError"
    using find_index_error_iff[OF h, of 3] by simp
  show "\<exists>u' r. find \<lparr>parent = [0, 0, 2], rank = [1, 0, 0], num_sets = 2\<rparr> 1 = Inr (u', r) \<and>
      root_of (parent \<lparr>parent = [0, 0, 2], rank = [1, 0, 0], num_sets = 2\<rparr>) (nat 1) r"
    using find_index_error_iff[OF h, of 1] by simp
  show "\<exists>u' r. find \<lparr>parent = [0, 0, 2], rank = [1, 0, 0], num_sets = 2\<rparr> (- 2) = Inr (u', r) \<and>
      root_of (parent \<lparr>parent = [0, 0, 2], rank = [1, 0, 0], num_sets = 2\<rparr>) (nat (- 2 + int 3)) r"
    using find_index_error_iff[OF h, of "- 2"] by simp
qed

text \<open>
  Claim C9. On a forest of \<open>n > 0\<close> pixels made by \<^verbatim>\<open>UnionFind(n)\<close> and
  successful \<^verbatim>\<open>union\<close> calls, for every \<open>m \<ge> 1\<close>,
  \<^verbatim>\<open>get_largest_components(m)\<close> raises nothing. The (root, size) pairs it returns
  are the first \<open>m\<close> entries of a list \<open>full\<close> that holds every entry of
  \<^verbatim>\<open>get_component_sizes()\<close> once, ordered by size descending and, among equal
  sizes, by ascending root; so the sizes returned never increase, and when \<open>m\<close>
  is at least the number of components all of them are returned. The entries of
  \<^verbatim>\<open>get_component_sizes()\<close> are the roots of the forest, each with the number of
  pixels whose root it is.
\<close>

theorem largest_components_ranked:
  assumes "unions (uf_init n) ops = Inr u" and "0 < n" and "1 \<le> m"
  shows "\<exists>u' rts sizes items full.
     get_component_sizes u = Inr (u', items) \<and>
     get_largest_components u m = Inr (u', rts, sizes) \<and>
     mset full = mset items \<and> sorted_wrt by_size_then_root full \<and>
     zip rts sizes = take (nat m) full \<and> length rts = length sizes \<and>
     sorted_wrt (\<ge>) sizes \<and>
     length rts = min (nat m) (length items) \<and>
     fst ` set items = roots (parent u) \<and>
     (\<forall>(r, s)\<in>set items. s = card {i. i < n \<and> root_of (parent u) i r})"
proof -
  from unions_inv[OF uf_inv_init assms(1)] have inv: "uf_inv u" and len: "length (parent u) = n"
    by simp_all
  from largest_components_spec[OF inv _ assms(3)] assms(2) len show ?thesis by simp
qed

text \<open>
  Claim C9, witness: three pixels after \<^verbatim>\<open>union(0, 1)\<close>, asked for the largest
  component.
\<close>

theorem largest_components_ranked_witness:
  "\<exists>u' rts sizes items full.
     get_component_sizes \<lparr>parent = [0, 0, 2], rank = [1, 0, 0], num_sets = 2\<rparr> = Inr (u', items) \<and>
     get_largest_components \<lparr>parent = [0, 0, 2], rank = [1, 0, 0], num_sets = 2\<rparr> 1 =
       Inr (u', rts, sizes) \<and>
     mset full = mset items \<and> sorted_wrt by_size_then_root full \<and>
     zip rts sizes = take (nat 1) full \<and> length rts = length sizes \<and>
     sorted_wrt (\<ge>) sizes \<and>
     length rts = min (nat 1) (length items) \<and>
     fst ` set items = roots (parent \<lparr>parent = [0, 0, 2], rank = [1, 0, 0], num_sets = 2\<rparr>) \<and>
     (\<forall>(r, s)\<in>set items. s = card {i. i < 3 \<and>
        root_of (parent \<lparr>parent = [0, 0, 2], rank = [1, 0, 0], num_sets = 2\<rparr>) i r})"
proof -
  have h: "unions (uf_init 3) [(0, 1)] = Inr \<lparr>parent = [0, 0, 2], rank = [1, 0, 0], num_sets = 2\<rparr>"
    by code_simp
  show ?thesis by (rule largest_components_ranked[OF h]) simp_all
qed

section \<open>Claims about the engine\<close>

text \<open>
  Claim C1. Pass 1 is the loop that \<open>merge_passes\<close> runs first. It runs over the edge
  list that \<^verbatim>\<open>create_graph\<close> returns, which is in ascending order of weight, and
  starts from singleton sets with the threshold \<^verbatim>\<open>float(k)\<close> at every index. The loop
  takes the edges one by one in the order of the list: over no edge it leaves the state
  as it is, and the state after the edges \<open>es\<close> followed by \<open>e\<close> is the step at
  \<open>e\<close> applied to the state after \<open>es\<close>. After any initial part \<open>es\<close> of the
  edge list, the whole list included, the loop has raised nothing, the forest satisfies
  the class invariant, forest and threshold array have one entry per pixel, and the
  edges still to come join pixel indices.

  In every such state the step at an edge \<open>(w, u, v)\<close>, with \<open>ru = find(u)\<close> and
  \<open>rv = find(v)\<close>, raises nothing. If \<open>ru = rv\<close>, or if
  \<open>w > min(threshold[ru], threshold[rv])\<close>, the thresholds, \<^verbatim>\<open>num_sets\<close> and the
  root of every index stay as they are. If \<open>ru \<noteq> rv\<close> and
  \<open>w \<le> min(threshold[ru], threshold[rv])\<close>, the two components are merged:
  \<^verbatim>\<open>num_sets\<close> drops by 1, every index whose root was \<open>ru\<close> or \<open>rv\<close> now has
  the same root \<open>z\<close> (one of the two), every other index keeps its root, and the
  only threshold that changes is that of \<open>z\<close>, which becomes \<^verbatim>\<open>weight + float(k)\<close>,
  the sum as \<^verbatim>\<open>float64\<close> arithmetic returns it.
\<close>

theorem pass1_semantics:
  "sorted (map fst (create_graph F np2 img)) \<and>
   (py_float F k = Inr kf \<longrightarrow>
      merge_passes F np2 img n k ms =
        (case pass1 F kf (uf_init n, replicate n kf) (create_graph F np2 img) of
           Inl x \<Rightarrow> Inl x
         | Inr (uf1, thr1) \<Rightarrow>
             if ms > 0 then pass2 ms uf1 (create_graph F np2 img) else Inr uf1)) \<and>
   pass1 F kf s [] = Inr s \<and>
   (\<forall>es e. pass1 F kf s (es @ [e]) =
      (case pass1 F kf s es of Inl x \<Rightarrow> Inl x | Inr s' \<Rightarrow> pass1_step F kf s' e)) \<and>
   (\<forall>es rest. create_graph F np2 img = es @ rest \<longrightarrow>
      (\<exists>uf0 thr0.
         pass1 F kf (uf_init (height img * width img), replicate (height img * width img) kf) es =
           Inr (uf0, thr0) \<and>
         uf_inv uf0 \<and> length (parent uf0) = height img * width img \<and>
         length thr0 = height img * width img \<and>
         (\<forall>e\<in>set rest. fst (snd e) < height img * width img \<and>
                          snd (snd e) < height img * width img))) \<and>
   (\<forall>uf (thr::rat list) (w::rat) u v a b ru rv.
      uf_inv uf \<and> length thr = length (parent uf) \<and>
      u < length (parent uf) \<and> v < length (parent uf) \<and>
      find uf (int u) = Inr (a, ru) \<and> find uf (int v) = Inr (b, rv) \<longrightarrow>
      (\<exists>uf' thr'. pass1_step F kf (uf, thr) (w, u, v) = Inr (uf', thr') \<and> uf_inv uf' \<and>
         length (parent uf') = length (parent uf) \<and> length thr' = length thr \<and>
         (ru = rv \<or> \<not> w \<le> min (thr ! ru) (thr ! rv) \<longrightarrow>
            thr' = thr \<and> num_sets uf' = num_sets uf \<and>
            (\<forall>c s. root_of (parent uf') c s \<longleftrightarrow> root_of (parent uf) c s)) \<and>
         (ru \<noteq> rv \<and> w \<le> min (thr ! ru) (thr ! rv) \<longrightarrow>
            num_sets uf' = num_sets uf - 1 \<and>
            (\<exists>z u1 u2. (z = ru \<or> z = rv) \<and>
               find uf' (int ru) = Inr (u1, z) \<and> find uf' (int rv) = Inr (u2, z) \<and>
               thr' = thr[z := fadd F w kf] \<and> thr' ! z = fadd F w kf \<and>
               (\<forall>c s. root_of (parent uf) c s \<longrightarrow>
                  root_of (parent uf') c (if s = ru \<or> s = rv then z else s))))))"
proof (intro conjI impI allI)
  show "sorted (map fst (create_graph F np2 img))" by (rule create_graph_sorted_weights)
next
  assume "py_float F k = Inr kf"
  then show "merge_passes F np2 img n k ms =
        (case pass1 F kf (uf_init n, replicate n kf) (create_graph F np2 img) of
           Inl x \<Rightarrow> Inl x
         | Inr (uf1, thr1) \<Rightarrow>
             if ms > 0 then pass2 ms uf1 (create_graph F np2 img) else Inr uf1)"
    by (simp add: merge_passes_def Let_def)
next
  show "pass1 F kf s [] = Inr s" by simp
next
  fix es e
  show "pass1 F kf s (es @ [e]) =
      (case pass1 F kf s es of Inl x \<Rightarrow> Inl x | Inr s' \<Rightarrow> pass1_step F kf s' e)"
    by (rule pass1_snoc)
next
  fix es rest
  let ?n = "height img * width img"
  assume sp: "create_graph F np2 img = es @ rest"
  have "edges_below ?n (es @ rest)" using create_graph_below[of img F np2] sp by simp
  then have eb: "edges_below (length (parent (uf_init ?n))) es" and rb: "edges_below ?n rest"
    by (simp_all add: edges_below_append)
  from pass1_total[OF uf_inv_init eb, of F kf "replicate ?n kf"] obtain uf0 thr0 where
    "pass1 F kf (uf_init ?n, replicate ?n kf) es = Inr (uf0, thr0)" "uf_inv uf0"
    "length (parent uf0) = ?n" "length thr0 = ?n"
    by auto
  then show "\<exists>uf0 thr0.
         pass1 F kf (uf_init ?n, replicate ?n kf) es = Inr (uf0, thr0) \<and>
         uf_inv uf0 \<and> length (parent uf0) = ?n \<and> length thr0 = ?n \<and>
         (\<forall>e\<in>set rest. fst (snd e) < ?n \<and> snd (snd e) < ?n)"
    using rb by (auto simp: edges_below_def)
next
  fix uf and thr :: "rat list" and w :: rat and u v a b ru rv
  assume h: "uf_inv uf \<and> length thr = length (parent uf) \<and>
      u < length (parent uf) \<and> v < length (parent uf) \<and>
      find uf (int u) = Inr (a, ru) \<and> find uf (int v) = Inr (b, rv)"
  then have inv: "uf_inv uf" and lthr: "length thr = length (parent uf)"
    and u: "u < length (parent uf)" and v: "v < length (parent uf)"
    and fu: "find uf (int u) = Inr (a, ru)" and fv: "find uf (int v) = Inr (b, rv)"
    by simp_all
  have ur: "root_of (parent uf) u ru" using find_is_root_of[OF inv u] fu by blast
  have vr: "root_of (parent uf) v rv" using find_is_root_of[OF inv v] fv by blast
  from pass1_step_spec[OF inv u v ur vr, of F kf thr w] obtain uf' thr' where
    st: "pass1_step F kf (uf, thr) (w, u, v) = Inr (uf', thr')" and inv': "uf_inv uf'"
    and len: "length (parent uf') = length (parent uf)" and lt: "length thr' = length thr"
    and skip: "ru = rv \<or> \<not> w \<le> min (thr ! ru) (thr ! rv) \<longrightarrow>
         thr' = thr \<and> num_sets uf' = num_sets uf \<and>
         (\<forall>c s. root_of (parent uf') c s \<longleftrightarrow> root_of (parent uf) c s)"
    and mrg: "ru \<noteq> rv \<and> w \<le> min (thr ! ru) (thr ! rv) \<longrightarrow>
         num_sets uf' = num_sets uf - 1 \<and>
         (\<exists>z. (z = ru \<or> z = rv) \<and> thr' = thr[z := fadd F w kf] \<and>
            (\<forall>c s. root_of (parent uf) c s \<longrightarrow>
               root_of (parent uf') c (if s = ru \<or> s = rv then z else s)))"
    by blast
  have rur: "ru < length (parent uf)" "root_of (parent uf) ru ru"
    using root_of_is_root[OF ur] by (auto intro: root_of.root)
  have rvr: "rv < length (parent uf)" "root_of (parent uf) rv rv"
    using root_of_is_root[OF vr] by (auto intro: root_of.root)
  have mrg': "num_sets uf' = num_sets uf - 1 \<and>
           (\<exists>z u1 u2. (z = ru \<or> z = rv) \<and>
              find uf' (int ru) = Inr (u1, z) \<and> find uf' (int rv) = Inr (u2, z) \<and>
              thr' = thr[z := fadd F w kf] \<and> thr' ! z = fadd F w kf \<and>
              (\<forall>c s. root_of (parent uf) c s \<longrightarrow>
                 root_of (parent uf') c (if s = ru \<or> s = rv then z else s)))"
    if c: "ru \<noteq> rv \<and> w \<le> min (thr ! ru) (thr ! rv)"
  proof -
    from mrg c obtain z where ns: "num_sets uf' = num_sets uf - 1"
      and z: "z = ru \<or> z = rv" and t: "thr' = thr[z := fadd F w kf]"
      and lk: "\<forall>c s. root_of (parent uf) c s \<longrightarrow>
               root_of (parent uf') c (if s = ru \<or> s = rv then z else s)"
      by blast
    have "root_of (parent uf') ru z" "root_of (parent uf') rv z"
      using lk rur(2) rvr(2) by fastforce+
    then obtain u1 u2 where "find uf' (int ru) = Inr (u1, z)" "find uf' (int rv) = Inr (u2, z)"
      using find_is_root_of[OF inv', of ru z] find_is_root_of[OF inv', of rv z] rur(1) rvr(1) len
      by auto
    moreover have "z < length thr" using z rur(1) rvr(1) lthr by auto
    then have "thr' ! z = fadd F w kf" using t by simp
    ultimately show ?thesis using ns z t lk by blast
  qed
  show "\<exists>uf' thr'. pass1_step F kf (uf, thr) (w, u, v) = Inr (uf', thr') \<and> uf_inv uf' \<and>
         length (parent uf') = length (parent uf) \<and> length thr' = length thr \<and>
         (ru = rv \<or> \<not> w \<le> min (thr ! ru) (thr ! rv) \<longrightarrow>
            thr' = thr \<and> num_sets uf' = num_sets uf \<and>
            (\<forall>c s. root_of (parent uf') c s \<longleftrightarrow> root_of (parent uf) c s)) \<and>
         (ru \<noteq> rv \<and> w \<le> min (thr ! ru) (thr ! rv) \<longrightarrow>
            num_sets uf' = num_sets uf - 1 \<and>
            (\<exists>z u1 u2. (z = ru \<or> z = rv) \<and>
               find uf' (int ru) = Inr (u1, z) \<and> find uf' (int rv) = Inr (u2, z) \<and>
               thr' = thr[z := fadd F w kf] \<and> thr' ! z = fadd F w kf \<and>
               (\<forall>c s. root_of (parent uf) c s \<longrightarrow>
                  root_of (parent uf') c (if s = ru \<or> s = rv then z else s))))"
    using st inv' len lt skip mrg' by blast
qed

text \<open>
  Claim C1, witness: the 1x2 row \<open>[3, 5]\<close> with \<open>k = 10\<close>. Its one edge has weight 4;
  the loop over the edge list is the step at that edge, from two singleton pixels with
  thresholds 10: the edge is merged and the threshold of the root 0 becomes 14. An edge
  of weight 100 would change nothing.
\<close>

theorem pass1_semantics_witness:
  "create_graph small_ints True img_a = [] @ [(4, 0, 1)] \<and>
   merge_passes small_ints True img_a 2 (PyInt 10) 0 =
     Inr \<lparr>parent = [0, 0], rank = [1, 0], num_sets = 1\<rparr> \<and>
   pass1 small_ints 10 (uf_init 2, [10, 10]) ([] @ [(4, 0, 1)]) =
     pass1_step small_ints 10 (uf_init 2, [10, 10]) (4, 0, 1) \<and>
   pass1_step small_ints 10 (uf_init 2, [10, 10]) (4, 0, 1) =
     Inr (\<lparr>parent = [0, 0], rank = [1, 0], num_sets = 1\<rparr>, [14, 10]) \<and>
   pass1_step small_ints 10 (uf_init 2, [10, 10]) (100, 0, 1) = Inr (uf_init 2, [10, 10])"
proof -
  let ?s = "(uf_init 2, [10, 10::rat])"
  have g: "create_graph small_ints True img_a = [] @ [(4, 0, 1)]" by code_simp
  have k: "py_float small_ints (PyInt 10) = Inr 10" by code_simp
  have p: "pass1 small_ints 10 (uf_init 2, replicate 2 10) ([] @ [(4, 0, 1)]) =
     Inr (\<lparr>parent = [0, 0], rank = [1, 0], num_sets = 1\<rparr>, [14, 10])"
    by code_simp
  have s: "pass1_step small_ints 10 ?s (4, 0, 1) =
     Inr (\<lparr>parent = [0, 0], rank = [1, 0], num_sets = 1\<rparr>, [14, 10])"
    by code_simp
  have t: "pass1_step small_ints 10 ?s (100, 0, 1) = Inr ?s" by code_simp
  have h: "uf_inv (uf_init 2) \<and> length [10, 10::rat] = length (parent (uf_init 2)) \<and>
      0 < length (parent (uf_init 2)) \<and> 1 < length (parent (uf_init 2)) \<and>
      find (uf_init 2) (int 0) = Inr (uf_init 2, 0) \<and>
      find (uf_init 2) (int 1) = Inr (uf_init 2, 1)"
  proof (intro conjI)
    show "uf_inv (uf_init 2)" by (rule uf_inv_init)
    show "find (uf_init 2) (int 0) = Inr (uf_init 2, 0)" by code_simp
    show "find (uf_init 2) (int 1) = Inr (uf_init 2, 1)" by code_simp
  qed simp_all
  note T = pass1_semantics[of small_ints True img_a "PyInt 10" 10 2 0 ?s]
  note loop = T[THEN conjunct2, THEN conjunct2]
  have m: "merge_passes small_ints True img_a 2 (PyInt 10) 0 =
     Inr \<lparr>parent = [0, 0], rank = [1, 0], num_sets = 1\<rparr>"
  proof -
    have "merge_passes small_ints True img_a 2 (PyInt 10) 0 =
        (case pass1 small_ints 10 (uf_init 2, replicate 2 10) (create_graph small_ints True img_a) of
           Inl x \<Rightarrow> Inl x
         | Inr (uf1, thr1) \<Rightarrow>
             if (0::int) > 0 then pass2 0 uf1 (create_graph small_ints True img_a) else Inr uf1)"
      by (rule mp[OF T[THEN conjunct2, THEN conjunct1] k])
    also have "\<dots> = Inr \<lparr>parent = [0, 0], rank = [1, 0], num_sets = 1\<rparr>"
      unfolding g p by simp
    finally show ?thesis .
  qed
  have n: "pass1 small_ints 10 ?s ([] @ [(4, 0, 1)]) = pass1_step small_ints 10 ?s (4, 0, 1)"
    using loop[THEN conjunct2, THEN conjunct1, rule_format, of "[]" "(4, 0, 1)"]
    by (simp only: loop[THEN conjunct1] sum.case)
  from loop[THEN conjunct2, THEN conjunct2, THEN conjunct2, rule_format, OF h, of 4]
  obtain uf' thr' where "pass1_step small_ints 10 ?s (4, 0, 1) = Inr (uf', thr')" by blast
  then show ?thesis using g m n s t by simp
qed

text \<open>
  Claim C2, the code at the failing input: the 1x8 \<^verbatim>\<open>uint8\<close> row
  \<open>[22, 22, 22, 22, 10, 10, 0, 0]\<close> with \<open>k = 10\<close>, \<open>min_size = 4\<close>,
  \<open>sigma = 0\<close>. Pass 1 leaves the components \<open>{0,1,2,3}\<close>, \<open>{4,5}\<close> and
  \<open>{6,7}\<close>. In Pass 2 the edge \<open>(100, 5, 6)\<close> merges the two pairs and makes 4
  the parent of 6, while 7 still points to 6. At the next edge \<open>(144, 3, 4)\<close> the
  roots are 0 and 4; \<^verbatim>\<open>np.sum(uf.parent == 4)\<close> is 3, although four indices
  resolve to the root 4, and the component of 0 has four as well. Neither component is
  smaller than \<open>min_size = 4\<close>, yet the step merges them and the call returns one
  segment.
\<close>

theorem pass2_counts_parent_entries:
  "wf_ndarray img8 \<and>
   pass1 small_ints 10 (uf_init 8, replicate 8 10) (create_graph small_ints True img8) =
     Inr (\<lparr>parent = [0, 0, 0, 0, 4, 4, 6, 6], rank = [1, 0, 0, 0, 1, 0, 1, 0], num_sets = 3\<rparr>,
          [10, 10, 10, 10, 10, 10, 10, 10]) \<and>
   create_graph small_ints True img8 =
     [(0, 0, 1), (0, 1, 2), (0, 2, 3), (0, 4, 5), (0, 6, 7), (100, 5, 6), (144, 3, 4)] \<and>
   create_graph small_ints False img8 = create_graph small_ints True img8 \<and>
   pass2 4 \<lparr>parent = [0, 0, 0, 0, 4, 4, 6, 6], rank = [1, 0, 0, 0, 1, 0, 1, 0], num_sets = 3\<rparr>
     [(0, 0, 1), (0, 1, 2), (0, 2, 3), (0, 4, 5), (0, 6, 7), (100, 5, 6)] =
     Inr \<lparr>parent = [0, 0, 0, 0, 4, 4, 4, 6], rank = [1, 0, 0, 0, 2, 0, 1, 0], num_sets = 2\<rparr> \<and>
   count_list [0, 0, 0, 0, 4, 4, 4, 6::nat] 4 = 3 \<and>
   spec_component_size \<lparr>parent = [0, 0, 0, 0, 4, 4, 4, 6], rank = [1, 0, 0, 0, 2, 0, 1, 0], num_sets = 2\<rparr> 4 = 4 \<and>
   spec_component_size \<lparr>parent = [0, 0, 0, 0, 4, 4, 4, 6], rank = [1, 0, 0, 0, 2, 0, 1, 0], num_sets = 2\<rparr> 0 = 4 \<and>
   pass2_step 4 \<lparr>parent = [0, 0, 0, 0, 4, 4, 4, 6], rank = [1, 0, 0, 0, 2, 0, 1, 0], num_sets = 2\<rparr>
     (144, 3, 4) =
     Inr \<lparr>parent = [4, 0, 0, 0, 4, 4, 4, 6], rank = [1, 0, 0, 0, 2, 0, 1, 0], num_sets = 1\<rparr> \<and>
   felzenszwalb_huttenlocher small_ints (numpy True (\<lambda>i. 40 + i)) [img8] 0 (PyInt 10) 4 0 =
     Inr ([img8, img8,
           \<lparr>height = 1, width = 8, channels = None, pixels = UInt8 [40, 40, 40, 40, 40, 40, 40, 40]\<rparr>],
          2, 1, \<lparr>parent = [4, 4, 4, 4, 4, 4, 4, 4], rank = [1, 0, 0, 0, 2, 0, 1, 0], num_sets = 1\<rparr>)"
  by code_simp

text \<open>
  Claim C3, counterexample. The claim says that a buffer with a zero-sized dimension
  and a non-positive \<open>k\<close> make the call fail before graph construction. A 0x4
  buffer is accepted and the call returns 0 segments; \<open>k = -5\<close> and \<open>k = 0\<close> on a
  1x2 buffer are accepted and the call returns 2 segments.
\<close>

theorem no_input_validation_counterexample:
  "felzenszwalb_huttenlocher small_ints (numpy True (\<lambda>i. 40 + i)) [img_empty] 0 (PyInt 10) 0 0 =
     Inr ([img_empty, img_empty, img_empty], 2, 0, \<lparr>parent = [], rank = [], num_sets = 0\<rparr>) \<and>
   felzenszwalb_huttenlocher small_ints (numpy True (\<lambda>i. 40 + i)) [img_a] 0 (PyInt (- 5)) 0 0 =
     Inr ([img_a, img_a, \<lparr>height = 1, width = 2, channels = None, pixels = UInt8 [40, 41]\<rparr>], 2, 2,
          \<lparr>parent = [0, 1], rank = [0, 0], num_sets = 2\<rparr>) \<and>
   felzenszwalb_huttenlocher small_ints (numpy True (\<lambda>i. 40 + i)) [img_a] 0 (PyInt 0) 0 0 =
     Inr ([img_a, img_a, \<lparr>height = 1, width = 2, channels = None, pixels = UInt8 [40, 41]\<rparr>], 2, 2,
          \<lparr>parent = [0, 1], rank = [0, 0], num_sets = 2\<rparr>)"
  by code_simp

text \<open>
  Claim C3, as amended. The entry point checks nothing itself; a malformed input is
  stopped only where Python or NumPy raises. For a 2-D or 3-D buffer of \<^verbatim>\<open>uint8\<close> or
  \<^verbatim>\<open>float64\<close> elements, \<open>k\<close> a Python int or a finite float, every integer
  \<open>min_size\<close> and every number \<open>sigma\<close> (for \<open>sigma > 0\<close> the smoothing call is
  taken to return a buffer of the same height and width):

  \<^item> \<open>k\<close> is not compared with 0. A non-positive \<open>k\<close> is treated like any other:
    the only \<open>k\<close> that make the call fail are the ints that \<^verbatim>\<open>float(k)\<close> cannot
    convert, of magnitude \<open>2\<^sup>1\<^sup>0\<^sup>2\<^sup>4 - 2\<^sup>9\<^sup>7\<^sup>0\<close> or more; the call then fails with
    OverflowError, whatever the buffer is.

  For every other \<open>k\<close>:

  \<^item> a buffer whose height or width is 0 is accepted and the call returns 0 segments,
    whatever its channel count is;
  \<^item> every 2-D buffer and every 3-channel buffer is accepted and the call returns a
    result;
  \<^item> a 3-D buffer whose channel count is not 3 (a channel dimension of size 0
    included) and that has at least one pixel makes the call fail with ValueError,
    raised by the colouring loop after the graph was built and both passes ran to
    their end; the failed call returns nothing.
\<close>

theorem no_input_validation:
  assumes "sigma > 0 \<longrightarrow> height (gaussian L (h ! a) sigma) = height (h ! a) \<and>
                          width (gaussian L (h ! a) sigma) = width (h ! a)"
  shows "((\<exists>i. k = PyInt i \<and> 2 ^ 1024 - 2 ^ 970 \<le> \<bar>i\<bar>) \<longrightarrow>
            felzenszwalb_huttenlocher F L h a k ms sigma = Inl OverflowError) \<and>
         (\<not> (\<exists>i. k = PyInt i \<and> 2 ^ 1024 - 2 ^ 970 \<le> \<bar>i\<bar>) \<longrightarrow>
            (height (h ! a) * width (h ! a) = 0 \<longrightarrow>
               (\<exists>h' seg uf. felzenszwalb_huttenlocher F L h a k ms sigma = Inr (h', seg, 0, uf))) \<and>
            (channels (h ! a) = None \<or> channels (h ! a) = Some 3 \<longrightarrow>
               (\<exists>h' seg n uf. felzenszwalb_huttenlocher F L h a k ms sigma = Inr (h', seg, n, uf))) \<and>
            (\<forall>c. channels (h ! a) = Some c \<and> c \<noteq> 3 \<and> 0 < height (h ! a) * width (h ! a) \<longrightarrow>
               felzenszwalb_huttenlocher F L h a k ms sigma = Inl ValueError \<and>
               (\<exists>uf. merge_passes F (nep50 L) (if sigma > 0 then gaussian L (h ! a) sigma else h ! a)
                       (height (h ! a) * width (h ! a)) k ms = Inr uf)))"
proof (rule conjI)
  show "(\<exists>i. k = PyInt i \<and> 2 ^ 1024 - 2 ^ 970 \<le> \<bar>i\<bar>) \<longrightarrow>
          felzenszwalb_huttenlocher F L h a k ms sigma = Inl OverflowError"
  proof
    assume "\<exists>i. k = PyInt i \<and> 2 ^ 1024 - 2 ^ 970 \<le> \<bar>i\<bar>"
    then have "py_float F k = Inl OverflowError" by (simp only: py_float_overflow)
    then show "felzenszwalb_huttenlocher F L h a k ms sigma = Inl OverflowError"
      by (simp add: felz_unfold merge_passes_def Let_def)
  qed
next
  let ?img = "h ! a"
  let ?sm = "smoothed L ?img sigma"
  let ?n = "height ?img * width ?img"
  let ?seg = "Suc (length h)"
  let ?hp = "h @ [?sm, zeros_like ?img]"
  show "\<not> (\<exists>i. k = PyInt i \<and> 2 ^ 1024 - 2 ^ 970 \<le> \<bar>i\<bar>) \<longrightarrow>
            (height ?img * width ?img = 0 \<longrightarrow>
               (\<exists>h' seg uf. felzenszwalb_huttenlocher F L h a k ms sigma = Inr (h', seg, 0, uf))) \<and>
            (channels ?img = None \<or> channels ?img = Some 3 \<longrightarrow>
               (\<exists>h' seg n uf. felzenszwalb_huttenlocher F L h a k ms sigma = Inr (h', seg, n, uf))) \<and>
            (\<forall>c. channels ?img = Some c \<and> c \<noteq> 3 \<and> 0 < height ?img * width ?img \<longrightarrow>
               felzenszwalb_huttenlocher F L h a k ms sigma = Inl ValueError \<and>
               (\<exists>uf. merge_passes F (nep50 L) (if sigma > 0 then gaussian L ?img sigma else ?img)
                       (height ?img * width ?img) k ms = Inr uf))"
  proof
    assume "\<not> (\<exists>i. k = PyInt i \<and> 2 ^ 1024 - 2 ^ 970 \<le> \<bar>i\<bar>)"
    then have "py_float F k \<noteq> Inl OverflowError" by (simp only: py_float_overflow not_False_eq_True)
    then obtain kf where kf: "py_float F k = Inr kf" using py_float_cases[of F k] by blast
    have sm: "height ?sm * width ?sm = ?n" using assms by (simp add: smoothed_def)
    have sme: "(if sigma > 0 then gaussian L ?img sigma else ?img) = ?sm" by (simp add: smoothed_def)
    from merge_passes_total[OF sm kf, of "nep50 L" ms] obtain uf where
      mp: "merge_passes F (nep50 L) ?sm ?n k ms = Inr uf" and inv: "uf_inv uf"
      and len: "length (parent uf) = ?n" and ns: "num_sets uf \<le> int ?n"
      by auto
    have seg: "?seg < length ?hp" "?hp ! ?seg = zeros_like ?img" by (simp_all add: nth_append)
    have idx: "\<forall>(y, x)\<in>set (raster (height ?img) (width ?img)). y * width ?img + x < length (parent uf)"
      using raster_below[of "height ?img" "width ?img"] len by simp
    have 1: "\<exists>h' seg uf. felzenszwalb_huttenlocher F L h a k ms sigma = Inr (h', seg, 0, uf)"
      if z: "?n = 0"
    proof -
      have "num_sets uf = int (card (roots (parent uf)))" using inv by (simp add: uf_inv_iff)
      then have "num_sets uf = 0" using ns z by simp
      moreover have "raster (height ?img) (width ?img) = []" using z by (rule raster_empty)
      ultimately show ?thesis using mp by (simp add: felz_unfold)
    qed
    have 2: "\<exists>h' seg n uf. felzenszwalb_huttenlocher F L h a k ms sigma = Inr (h', seg, n, uf)"
      if c: "channels ?img = None \<or> channels ?img = Some 3"
    proof -
      have fit: "\<not> (channels ?img \<noteq> None) \<or> channels (?hp ! ?seg) = Some 3"
        using c seg(2) by auto
      have "cc_kind (channels ?img \<noteq> None) Map.empty" by (simp add: cc_kind_def)
      from paint_total[OF inv idx seg(1) fit this, of L 0] obtain uf' cc' d' hp' where
        "paint L (channels ?img \<noteq> None) (width ?img) ?seg (uf, Map.empty, 0, ?hp)
           (raster (height ?img) (width ?img)) = Inr (uf', cc', d', hp')"
        by blast
      then show ?thesis using mp by (simp add: felz_unfold)
    qed
    have 3: "felzenszwalb_huttenlocher F L h a k ms sigma = Inl ValueError \<and>
              (\<exists>uf. merge_passes F (nep50 L) (if sigma > 0 then gaussian L ?img sigma else ?img)
                      ?n k ms = Inr uf)"
      if c: "channels ?img = Some c \<and> c \<noteq> 3 \<and> 0 < ?n" for c
    proof -
      from raster_nonempty obtain yxs where r: "raster (height ?img) (width ?img) = (0, 0) # yxs"
        using c by blast
      have i0: "0 * width ?img + 0 < length (parent uf)" using c len by simp
      have ch: "channels (?hp ! ?seg) = Some c" using c seg(2) by simp
      from paint_value_error[OF inv i0 ch, of L 0 yxs] c
      have "paint L True (width ?img) ?seg (uf, Map.empty, 0, ?hp) ((0, 0) # yxs) = Inl ValueError"
        by simp
      then show ?thesis using mp c r unfolding sme by (simp add: felz_unfold)
    qed
    show "(height ?img * width ?img = 0 \<longrightarrow>
               (\<exists>h' seg uf. felzenszwalb_huttenlocher F L h a k ms sigma = Inr (h', seg, 0, uf))) \<and>
            (channels ?img = None \<or> channels ?img = Some 3 \<longrightarrow>
               (\<exists>h' seg n uf. felzenszwalb_huttenlocher F L h a k ms sigma = Inr (h', seg, n, uf))) \<and>
            (\<forall>c. channels ?img = Some c \<and> c \<noteq> 3 \<and> 0 < height ?img * width ?img \<longrightarrow>
               felzenszwalb_huttenlocher F L h a k ms sigma = Inl ValueError \<and>
               (\<exists>uf. merge_passes F (nep50 L) (if sigma > 0 then gaussian L ?img sigma else ?img)
                       (height ?img * width ?img) k ms = Inr uf))"
      using 1 2 3 by blast
  qed
qed

text \<open>
  Claim C3, witness: the 0x4 buffer; \<open>k = -5\<close> on the 1x2 buffer, with smoothing off and
  with \<open>sigma = 1\<close> and a smoothing call that keeps the shape; the RGBA pixel and the
  2x2 buffer with a channel dimension of size 0, which fail with ValueError; and
  \<open>k = -10\<^sup>3\<^sup>0\<^sup>9\<close>, which \<^verbatim>\<open>float(k)\<close> cannot convert.
\<close>

theorem no_input_validation_witness:
  "(\<exists>h' seg uf. felzenszwalb_huttenlocher small_ints (numpy True (\<lambda>i. 40 + i)) [img_empty] 0
      (PyInt 10) 0 0 = Inr (h', seg, 0, uf)) \<and>
   (\<exists>h' seg n uf. felzenszwalb_huttenlocher small_ints (numpy True (\<lambda>i. 40 + i)) [img_a] 0
      (PyInt (- 5)) 0 0 = Inr (h', seg, n, uf)) \<and>
   (\<exists>h' seg n uf. felzenszwalb_huttenlocher small_ints (numpy True (\<lambda>i. 40 + i)) [img_a] 0
      (PyInt (- 5)) 0 1 = Inr (h', seg, n, uf)) \<and>
   felzenszwalb_huttenlocher small_ints (numpy True (\<lambda>i. 40 + i)) [img_rgba] 0 (PyInt 10) 0 0 =
     Inl ValueError \<and>
   felzenszwalb_huttenlocher small_ints (numpy True (\<lambda>i. 40 + i)) [img_c0] 0 (PyInt 10) 0 0 =
     Inl ValueError \<and>
   felzenszwalb_huttenlocher small_ints (numpy True (\<lambda>i. 40 + i)) [img_a] 0
     (PyInt (- (10 ^ 309))) 0 0 = Inl OverflowError"
proof -
  let ?L = "numpy True (\<lambda>i. 40 + i)"
  have s1: "(1::rat) > 0 \<longrightarrow> height (gaussian ?L ([img_a] ! 0) 1) = height ([img_a] ! 0) \<and>
                               width (gaussian ?L ([img_a] ! 0) 1) = width ([img_a] ! 0)"
    by (simp add: numpy_def)
  have k10: "\<not> (\<exists>i. PyInt 10 = PyInt i \<and> 2 ^ 1024 - 2 ^ 970 \<le> \<bar>i\<bar>)" by simp
  have k5: "\<not> (\<exists>i. PyInt (- 5) = PyInt i \<and> 2 ^ 1024 - 2 ^ 970 \<le> \<bar>i\<bar>)" by simp
  have kh: "\<exists>i. PyInt (- (10 ^ 309)) = PyInt i \<and> 2 ^ 1024 - 2 ^ 970 \<le> \<bar>i\<bar>" by simp
  have e: "height ([img_empty] ! 0) * width ([img_empty] ! 0) = 0" by (simp add: img_empty_def)
  have g: "channels ([img_a] ! 0) = None \<or> channels ([img_a] ! 0) = Some 3" by (simp add: img_a_def)
  have c: "channels ([img_rgba] ! 0) = Some 4 \<and> (4::nat) \<noteq> 3 \<and>
            0 < height ([img_rgba] ! 0) * width ([img_rgba] ! 0)"
    by (simp add: img_rgba_def)
  have c0: "channels ([img_c0] ! 0) = Some 0 \<and> (0::nat) \<noteq> 3 \<and>
            0 < height ([img_c0] ! 0) * width ([img_c0] ! 0)"
    by (simp add: img_c0_def)
  have 1: "\<exists>h' seg uf. felzenszwalb_huttenlocher small_ints ?L [img_empty] 0 (PyInt 10) 0 0 =
      Inr (h', seg, 0, uf)"
    using no_input_validation[where sigma = 0 and L = "?L" and h = "[img_empty]" and a = 0 and k = "PyInt 10"
        and F = small_ints and ms = 0] k10 e by blast
  have 2: "\<exists>h' seg n uf. felzenszwalb_huttenlocher small_ints ?L [img_a] 0 (PyInt (- 5)) 0 0 =
      Inr (h', seg, n, uf)"
    using no_input_validation[where sigma = 0 and L = "?L" and h = "[img_a]" and a = 0 and k = "PyInt (- 5)"
        and F = small_ints and ms = 0] k5 g by blast
  have 3: "\<exists>h' seg n uf. felzenszwalb_huttenlocher small_ints ?L [img_a] 0 (PyInt (- 5)) 0 1 =
      Inr (h', seg, n, uf)"
    using no_input_validation[where sigma = 1 and L = "?L" and h = "[img_a]" and a = 0 and k = "PyInt (- 5)"
        and F = small_ints and ms = 0] s1 k5 g by blast
  have 4: "felzenszwalb_huttenlocher small_ints ?L [img_rgba] 0 (PyInt 10) 0 0 = Inl ValueError"
    using no_input_validation[where sigma = 0 and L = "?L" and h = "[img_rgba]" and a = 0 and k = "PyInt 10"
        and F = small_ints and ms = 0] k10 c by blast
  have 5: "felzenszwalb_huttenlocher small_ints ?L [img_c0] 0 (PyInt 10) 0 0 = Inl ValueError"
    using no_input_validation[where sigma = 0 and L = "?L" and h = "[img_c0]" and a = 0 and k = "PyInt 10"
        and F = small_ints and ms = 0] k10 c0 by blast
  have 6: "felzenszwalb_huttenlocher small_ints ?L [img_a] 0 (PyInt (- (10 ^ 309))) 0 0 =
      Inl OverflowError"
    using no_input_validation[where sigma = 0 and L = "?L" and h = "[img_a]" and a = 0 and k = "PyInt (- (10 ^ 309))"
        and F = small_ints and ms = 0] kh by blast
  show ?thesis using 1 2 3 4 5 6 by blast
qed

text \<open>
  Claim C4, the code at the failing input: the 1x4 \<^verbatim>\<open>uint8\<close> row
  \<open>[0, 0, 255, 255]\<close> with \<open>k = 10\<close>, \<open>min_size = 0\<close>, \<open>sigma = 0\<close>. The
  difference \<^verbatim>\<open>image[0, 1] - image[0, 2]\<close> is computed in \<^verbatim>\<open>uint8\<close> and wraps
  to 1, so the boundary edge has weight 1, not \<open>255\<^sup>2\<close>, under either NumPy
  promotion rule; the edge is merged and the call returns one segment. The same
  values in a \<^verbatim>\<open>float64\<close> buffer give the weight 65025 and two segments.
\<close>

theorem uint8_weight_wraps:
  "wf_ndarray img4 \<and>
   create_graph small_ints True img4 = [(0, 0, 1), (0, 2, 3), (1, 1, 2)] \<and>
   create_graph small_ints False img4 = [(0, 0, 1), (0, 2, 3), (1, 1, 2)] \<and>
   felzenszwalb_huttenlocher small_ints (numpy True (\<lambda>i. 40 + i)) [img4] 0 (PyInt 10) 0 0 =
     Inr ([img4, img4, \<lparr>height = 1, width = 4, channels = None, pixels = UInt8 [40, 40, 40, 40]\<rparr>],
          2, 1, \<lparr>parent = [0, 0, 0, 0], rank = [2, 0, 1, 0], num_sets = 1\<rparr>) \<and>
   felzenszwalb_huttenlocher small_ints (numpy False (\<lambda>i. 40 + i)) [img4] 0 (PyInt 10) 0 0 =
     Inr ([img4, img4, \<lparr>height = 1, width = 4, channels = None, pixels = UInt8 [40, 40, 40, 40]\<rparr>],
          2, 1, \<lparr>parent = [0, 0, 0, 0], rank = [2, 0, 1, 0], num_sets = 1\<rparr>) \<and>
   create_graph small_ints True img4f = [(0, 0, 1), (0, 2, 3), (65025, 1, 2)] \<and>
   felzenszwalb_huttenlocher small_ints (numpy True (\<lambda>i. 40 + i)) [img4f] 0 (PyInt 10) 0 0 =
     Inr ([img4f, img4f, \<lparr>height = 1, width = 4, channels = None, pixels = Float64 [40, 40, 41, 41]\<rparr>],
          2, 2, \<lparr>parent = [0, 0, 2, 2], rank = [1, 0, 1, 0], num_sets = 2\<rparr>)"
  by code_simp

text \<open>
  Claim C8. With smoothing off (\<open>sigma \<le> 0\<close>), two runs of the entry point on the same
  store, buffer and parameters, with the same NumPy promotion rule and any two
  sequences of random draws, either raise the same exception or return the same
  \<^verbatim>\<open>num_sets\<close> and the same forest, hence the same \<^verbatim>\<open>get_component_sizes()\<close>.
\<close>

theorem segmentation_deterministic:
  assumes "nep50 L1 = nep50 L2" and "sigma \<le> 0"
  shows "map_sum id (\<lambda>(h', seg, n, uf). (n, uf, get_component_sizes uf))
           (felzenszwalb_huttenlocher F L1 h a k ms sigma) =
         map_sum id (\<lambda>(h', seg, n, uf). (n, uf, get_component_sizes uf))
           (felzenszwalb_huttenlocher F L2 h a k ms sigma)"
proof -
  let ?img = "h ! a"
  have sm: "smoothed L1 ?img sigma = ?img" "smoothed L2 ?img sigma = ?img"
    using assms(2) by (simp_all add: smoothed_def)
  show ?thesis
  proof (cases "merge_passes F (nep50 L2) ?img (height ?img * width ?img) k ms")
    case (Inl e)
    then show ?thesis using assms(1) by (simp add: felz_unfold sm)
  next
    case (Inr uf)
    let ?s = "(uf, Map.empty, 0::nat, h @ [?img, zeros_like ?img])"
    have "paint_agree (Suc (length h)) ?s ?s" by (simp add: paint_agree_def)
    from paint_related[OF this, where ?L1.0 = L1 and ?L2.0 = L2 and ic = "channels ?img \<noteq> None"
        and w = "width ?img" and yxs = "raster (height ?img) (width ?img)"]
    show ?thesis using Inr assms(1)
      by (cases rule: rel_sum.cases) (auto simp: felz_unfold sm paint_agree_def)
  qed
qed

text \<open>
  Claim C8, witness: the 1x4 \<^verbatim>\<open>float64\<close> row under two different sequences of
  draws; the two runs agree on \<^verbatim>\<open>num_sets\<close>, the forest and the component sizes,
  and differ in the colours they paint.
\<close>

theorem segmentation_deterministic_witness:
  "map_sum id (\<lambda>(h', seg, n, uf). (n, uf, get_component_sizes uf))
     (felzenszwalb_huttenlocher small_ints (numpy True (\<lambda>i. 40 + i)) [img4f] 0 (PyInt 10) 0 0) =
   map_sum id (\<lambda>(h', seg, n, uf). (n, uf, get_component_sizes uf))
     (felzenszwalb_huttenlocher small_ints (numpy True (\<lambda>i. 7 * i)) [img4f] 0 (PyInt 10) 0 0) \<and>
   felzenszwalb_huttenlocher small_ints (numpy True (\<lambda>i. 40 + i)) [img4f] 0 (PyInt 10) 0 0 \<noteq>
   felzenszwalb_huttenlocher small_ints (numpy True (\<lambda>i. 7 * i)) [img4f] 0 (PyInt 10) 0 0"
proof
  have n: "nep50 (numpy True (\<lambda>i. 40 + i)) = nep50 (numpy True (\<lambda>i. 7 * i))"
    by (simp add: numpy_def)
  show "map_sum id (\<lambda>(h', seg, n, uf). (n, uf, get_component_sizes uf))
     (felzenszwalb_huttenlocher small_ints (numpy True (\<lambda>i. 40 + i)) [img4f] 0 (PyInt 10) 0 0) =
   map_sum id (\<lambda>(h', seg, n, uf). (n, uf, get_component_sizes uf))
     (felzenszwalb_huttenlocher small_ints (numpy True (\<lambda>i. 7 * i)) [img4f] 0 (PyInt 10) 0 0)"
    by (rule segmentation_deterministic[OF n]) simp
  show "felzenszwalb_huttenlocher small_ints (numpy True (\<lambda>i. 40 + i)) [img4f] 0 (PyInt 10) 0 0 \<noteq>
   felzenszwalb_huttenlocher small_ints (numpy True (\<lambda>i. 7 * i)) [img4f] 0 (PyInt 10) 0 0"
    by code_simp
qed

text \<open>
  Claim C10. When the entry point returns, every array that was in the store when it
  was called, the caller's buffer among them, is what it was. The call allocates
  two arrays: the smoothed buffer (the result of \<^verbatim>\<open>gaussian\<close>, or of
  \<^verbatim>\<open>image.copy()\<close> when \<open>sigma \<le> 0\<close>), which it leaves as allocated, and
  \<^verbatim>\<open>segmented_image\<close>, the only array it writes.
\<close>

theorem input_buffer_unchanged:
  assumes "felzenszwalb_huttenlocher F L h a k ms sigma = Inr (h', seg, n, uf)"
  shows "length h' = length h + 2 \<and> seg = Suc (length h) \<and> (\<forall>b<length h. h' ! b = h ! b) \<and>
         h' ! length h = (if sigma > 0 then gaussian L (h ! a) sigma else h ! a)"
proof -
  let ?img = "h ! a"
  from assms obtain uf0 cc d where
    p: "paint L (channels ?img \<noteq> None) (width ?img) (Suc (length h))
          (uf0, Map.empty, 0, h @ [smoothed L ?img sigma, zeros_like ?img])
          (raster (height ?img) (width ?img)) = Inr (uf, cc, d, h')"
    and seg: "seg = Suc (length h)"
    by (auto simp: felz_unfold split: sum.splits)
  from paint_heap[OF p]
  have len: "length h' = length h + 2"
    and same: "\<forall>b. b \<noteq> Suc (length h) \<longrightarrow> h' ! b = (h @ [smoothed L ?img sigma, zeros_like ?img]) ! b"
    by simp_all
  have "h' ! b = h ! b" if "b < length h" for b
    using same that by (simp add: nth_append)
  moreover have "h' ! length h = smoothed L ?img sigma" using same by (simp add: nth_append)
  ultimately show ?thesis using len seg by (simp add: smoothed_def)
qed

text \<open>
  Claim C10, witness: the 1x2 buffer at address 0 is the same after the call.
\<close>

theorem input_buffer_unchanged_witness:
  "felzenszwalb_huttenlocher small_ints (numpy True (\<lambda>i. 40 + i)) [img_a] 0 (PyInt 10) 0 0 =
     Inr ([img_a, img_a, \<lparr>height = 1, width = 2, channels = None, pixels = UInt8 [40, 40]\<rparr>], 2, 1,
          \<lparr>parent = [0, 0], rank = [1, 0], num_sets = 1\<rparr>) \<and>
   [img_a, img_a, \<lparr>height = 1, width = 2, channels = None, pixels = UInt8 [40, 40]\<rparr>] ! 0 = [img_a] ! 0"
proof -
  have r: "felzenszwalb_huttenlocher small_ints (numpy True (\<lambda>i. 40 + i)) [img_a] 0 (PyInt 10) 0 0 =
     Inr ([img_a, img_a, \<lparr>height = 1, width = 2, channels = None, pixels = UInt8 [40, 40]\<rparr>], 2, 1,
          \<lparr>parent = [0, 0], rank = [1, 0], num_sets = 1\<rparr>)"
    by code_simp
  from input_buffer_unchanged[OF r] show ?thesis using r by simp
qed

end
